theory Spec2Isabelle
  imports Main "HOL-Library.Sublist"
begin

section \<open>Values\<close>

text \<open>
  The validator and the extractor work on the values that Python's \<^verbatim>\<open>json\<close> module
  produces: \<^verbatim>\<open>None\<close>, \<^verbatim>\<open>bool\<close>, \<^verbatim>\<open>int\<close>, \<^verbatim>\<open>float\<close>, \<^verbatim>\<open>str\<close>, \<^verbatim>\<open>list\<close> and \<^verbatim>\<open>dict\<close> with
  string keys. A \<^verbatim>\<open>dict\<close> keeps insertion order, so an object is an association list; its
  keys are unique in Python, which \<open>wf_json\<close> states. A \<^verbatim>\<open>float\<close> is a finite dyadic number
  (mantissa and binary exponent), an infinity or NaN; only its truth value is ever read.
  Text is a list of characters.
\<close>

datatype pyfloat = PFinite int int | PInf bool | PNaN

datatype json =
    JNull
  | JBool bool
  | JInt int
  | JFloat pyfloat
  | JString string
  | JArray "json list"
  | JObject "(string \<times> json) list"


text \<open>Python's truth value of a value (\<^verbatim>\<open>bool(x)\<close>, as \<^verbatim>\<open>if x\<close> and \<^verbatim>\<open>not x\<close> read it).\<close>

fun truthy :: "json \<Rightarrow> bool" where
  "truthy JNull = False"
| "truthy (JBool b) = b"
| "truthy (JInt n) = (n \<noteq> 0)"
| "truthy (JFloat (PFinite m e)) = (m \<noteq> 0)"
| "truthy (JFloat _) = True"
| "truthy (JString s) = (s \<noteq> [])"
| "truthy (JArray xs) = (xs \<noteq> [])"
| "truthy (JObject kvs) = (kvs \<noteq> [])"

text \<open>\<^verbatim>\<open>isinstance(x, dict)\<close>, \<^verbatim>\<open>isinstance(x, list)\<close>; \<^verbatim>\<open>isinstance(x, int)\<close> holds of a
  \<^verbatim>\<open>bool\<close> too, since \<^verbatim>\<open>bool\<close> is a subclass of \<^verbatim>\<open>int\<close>.\<close>

fun is_dict :: "json \<Rightarrow> bool" where
  "is_dict (JObject _) = True"
| "is_dict _ = False"

fun is_list :: "json \<Rightarrow> bool" where
  "is_list (JArray _) = True"
| "is_list _ = False"

fun is_int :: "json \<Rightarrow> bool" where
  "is_int (JInt _) = True"
| "is_int (JBool _) = True"
| "is_int _ = False"

text \<open>The integer an \<^verbatim>\<open>int\<close> instance compares as (\<^verbatim>\<open>True\<close> is 1, \<^verbatim>\<open>False\<close> is 0).\<close>

fun int_value :: "json \<Rightarrow> int" where
  "int_value (JInt n) = n"
| "int_value (JBool b) = (if b then 1 else 0)"
| "int_value _ = 0"

text \<open>\<^verbatim>\<open>sep.join(xs)\<close>.\<close>

fun join :: "string \<Rightarrow> string list \<Rightarrow> string" where
  "join sep [] = []"
| "join sep [x] = x"
| "join sep (x # y # ys) = x @ sep @ join sep (y # ys)"

text \<open>An optional error message read as a condition (\<^verbatim>\<open>if err:\<close>): \<^verbatim>\<open>None\<close> and the empty
  string are both false.\<close>

fun is_error :: "string option \<Rightarrow> bool" where
  "is_error None = False"
| "is_error (Some e) = (e \<noteq> [])"

section \<open>Grammar registry\<close>

definition VALID_TOP_LEVEL_KEYS :: "string list" where
  "VALID_TOP_LEVEL_KEYS =
    [''query'', ''from'', ''size'', ''sort'', ''aggs'', ''aggregations'',
     ''_source'', ''fields'', ''script_fields'', ''stored_fields'',
     ''highlight'', ''post_filter'', ''rescore'', ''explain'', ''version'',
     ''track_total_hits'', ''min_score'', ''track_scores'', ''timeout'',
     ''terminate_after'', ''search_after'', ''pit'', ''runtime_mappings'']"

definition VALID_QUERY_TYPES :: "string list" where
  "VALID_QUERY_TYPES =
    [''match'', ''match_phrase'', ''match_phrase_prefix'', ''match_bool_prefix'',
     ''multi_match'', ''term'', ''terms'', ''range'', ''exists'', ''prefix'', ''wildcard'',
     ''regexp'', ''fuzzy'', ''ids'', ''bool'', ''dis_max'', ''function_score'', ''boosting'',
     ''nested'', ''has_child'', ''has_parent'', ''parent_id'', ''geo_shape'',
     ''geo_bounding_box'', ''geo_distance'', ''geo_polygon'', ''more_like_this'', ''script'',
     ''script_score'', ''wrapper'', ''pinned'', ''distance_feature'', ''rank_feature'',
     ''percolate'', ''intervals'', ''match_all'', ''match_none'']"

definition valid_bool_clauses :: "string list" where
  "valid_bool_clauses =
    [''must'', ''must_not'', ''should'', ''filter'', ''minimum_should_match'', ''boost'']"

section \<open>Structural validator\<close>

text \<open>\<^verbatim>\<open>_validate_top_level_structure\<close>: the unknown keys are collected in the order of the
  document and reported together; then \<^verbatim>\<open>size\<close> and \<^verbatim>\<open>from\<close> are checked.\<close>

definition validate_top_level_structure :: "(string \<times> json) list \<Rightarrow> string option" where
  "validate_top_level_structure query_dict =
    (let unknown_keys = filter (\<lambda>key. key \<notin> set VALID_TOP_LEVEL_KEYS) (map fst query_dict) in
     if unknown_keys \<noteq> [] then Some (''Unknown top-level keys: '' @ join '', '' unknown_keys)
     else if (case map_of query_dict ''size'' of None \<Rightarrow> False
              | Some v \<Rightarrow> \<not> is_int v \<or> int_value v < 0)
       then Some '''size' must be a non-negative integer''
     else if (case map_of query_dict ''from'' of None \<Rightarrow> False
              | Some v \<Rightarrow> \<not> is_int v \<or> int_value v < 0)
       then Some '''from' must be a non-negative integer''
     else None)"

lemma map_of_size_lt:
  "map_of kvs k = Some v \<Longrightarrow> size v < Suc (size_list (size_prod (\<lambda>_. 0) size) kvs)"
  by (induction kvs) (auto split: if_splits)

text \<open>
  \<^verbatim>\<open>_validate_query_structure\<close>. The clause type is the first key of the clause,
  \<^verbatim>\<open>next(iter(query.keys()), None)\<close>, and \<^verbatim>\<open>query[query_type]\<close> is its value. The loop over
  the four clause names of a \<^verbatim>\<open>bool\<close> body is \<open>validate_bool_clauses\<close>, the loop over the items
  of a list is \<open>validate_items\<close>; both return at the first error.
\<close>

function validate_query_structure :: "json \<Rightarrow> string option"
  and validate_bool_clauses :: "(string \<times> json) list \<Rightarrow> string list \<Rightarrow> string option"
  and validate_items :: "string \<Rightarrow> json list \<Rightarrow> string option"
where
  "validate_query_structure query =
    (case query of
       JObject [] \<Rightarrow> Some '''query' cannot be empty''
     | JObject ((query_type, body) # rest) \<Rightarrow>
         if query_type = ''match_all'' \<and> (\<not> truthy body \<or> body = JObject []) then None
         else if query_type \<notin> set VALID_QUERY_TYPES
           then Some (''Unknown query type: '' @ query_type)
         else if query_type = ''bool'' then
           (case body of
              JObject bool_query \<Rightarrow>
                (let unknown_clauses =
                       filter (\<lambda>clause. clause \<notin> set valid_bool_clauses) (map fst bool_query) in
                 if unknown_clauses \<noteq> []
                   then Some (''Unknown 'bool' clauses: '' @ join '', '' unknown_clauses)
                 else validate_bool_clauses bool_query
                        [''must'', ''must_not'', ''should'', ''filter''])
            | _ \<Rightarrow> Some '''bool' query must be a JSON object'')
         else if query_type = ''nested'' then
           (case body of
              JObject nested_query \<Rightarrow>
                if map_of nested_query ''path'' = None
                  then Some '''nested' query must have a 'path' field''
                else (case map_of nested_query ''query'' of
                        None \<Rightarrow> Some '''nested' query must have a 'query' field''
                      | Some q \<Rightarrow>
                          (let query_error = validate_query_structure q in
                           if is_error query_error
                             then Some (''Error in 'nested' query: '' @ the query_error)
                           else None))
            | _ \<Rightarrow> Some '''nested' query must be a JSON object'')
         else None
     | _ \<Rightarrow> Some '''query' must be a JSON object'')"
| "validate_bool_clauses bool_query [] = None"
| "validate_bool_clauses bool_query (clause # clauses) =
    (case map_of bool_query clause of
       None \<Rightarrow> validate_bool_clauses bool_query clauses
     | Some (JArray items) \<Rightarrow>
         (let item_error = validate_items clause items in
          if is_error item_error then item_error
          else validate_bool_clauses bool_query clauses)
     | Some (JObject kvs) \<Rightarrow>
         (let item_error = validate_query_structure (JObject kvs) in
          if is_error item_error
            then Some (''Error in '' @ [CHR 0x27] @ clause @ ''' clause: '' @ the item_error)
          else validate_bool_clauses bool_query clauses)
     | Some _ \<Rightarrow> Some ([CHR 0x27] @ clause @ ''' clause must be a JSON object or array''))"
| "validate_items clause [] = None"
| "validate_items clause (item # items) =
    (let item_error = validate_query_structure item in
     if is_error item_error
       then Some (''Error in '' @ [CHR 0x27] @ clause @ ''' clause: '' @ the item_error)
     else validate_items clause items)"
  by pat_completeness auto
termination
  by (relation "inv_image (less_than <*lex*> less_than)
        (\<lambda>x. case x of
           Inl q \<Rightarrow> (size q, 0)
         | Inr (Inl (bq, cs)) \<Rightarrow> (size (JObject bq), Suc (length cs))
         | Inr (Inr (c, xs)) \<Rightarrow> (size (JArray xs), 0))")
     (auto dest: map_of_size_lt)

section \<open>Schema flattener and field reference extractor\<close>

text \<open>The exceptions that the attribute accesses and membership tests of the two
  extractors can raise.\<close>

datatype exn = AttributeError | TypeError

text \<open>
  \<^verbatim>\<open>_extract_field_names_from_mapping\<close>. The inner \<^verbatim>\<open>extract_fields(prefix, obj)\<close> (\<open>pfx\<close> below) adds to
  the set \<^verbatim>\<open>field_names\<close>; the model threads the names added so far, in the order of the
  additions. \<^verbatim>\<open>obj["properties"].items()\<close> and \<^verbatim>\<open>field_def.get("type")\<close> raise
  \<^verbatim>\<open>AttributeError\<close> when the value is not a \<^verbatim>\<open>dict\<close>.
  \<open>extract_properties\<close> is the loop over the properties, \<open>extract_other_keys\<close> the loop
  over the keys of \<^verbatim>\<open>obj\<close> that follows it.
\<close>

function extract_mapping_fields :: "string \<Rightarrow> json \<Rightarrow> string list \<Rightarrow> exn + string list"
  and extract_properties ::
    "string \<Rightarrow> (string \<times> json) list \<Rightarrow> string list \<Rightarrow> exn + string list"
  and extract_other_keys ::
    "string \<Rightarrow> (string \<times> json) list \<Rightarrow> string list \<Rightarrow> exn + string list"
where
  "extract_mapping_fields pfx obj field_names =
    (case obj of
       JObject kvs \<Rightarrow>
         (case map_of kvs ''properties'' of
            None \<Rightarrow> extract_other_keys pfx kvs field_names
          | Some (JObject props) \<Rightarrow>
              (case extract_properties pfx props field_names of
                 Inl e \<Rightarrow> Inl e
               | Inr field_names' \<Rightarrow> extract_other_keys pfx kvs field_names')
          | Some _ \<Rightarrow> Inl AttributeError)
     | _ \<Rightarrow> Inr field_names)"
| "extract_properties pfx [] field_names = Inr field_names"
| "extract_properties pfx ((field_name, field_def) # props) field_names =
    (let full_name = pfx @ field_name in
     case field_def of
       JObject def_kvs \<Rightarrow>
         if map_of def_kvs ''type'' = Some (JString ''nested'')
              \<and> map_of def_kvs ''properties'' \<noteq> None
           then (case extract_mapping_fields (full_name @ ''.'') field_def
                        (field_names @ [full_name]) of
                   Inl e \<Rightarrow> Inl e
                 | Inr field_names' \<Rightarrow> extract_properties pfx props field_names')
         else if map_of def_kvs ''properties'' \<noteq> None
           then (case extract_mapping_fields (full_name @ ''.'') field_def
                        (field_names @ [full_name]) of
                   Inl e \<Rightarrow> Inl e
                 | Inr field_names' \<Rightarrow> extract_properties pfx props field_names')
         else extract_properties pfx props (field_names @ [full_name])
     | _ \<Rightarrow> Inl AttributeError)"
| "extract_other_keys pfx [] field_names = Inr field_names"
| "extract_other_keys pfx ((key, val) # kvs) field_names =
    (if key \<noteq> ''properties'' \<and> is_dict val
       then (case extract_mapping_fields (pfx @ key @ ''.'') val field_names of
               Inl e \<Rightarrow> Inl e
             | Inr field_names' \<Rightarrow> extract_other_keys pfx kvs field_names')
     else extract_other_keys pfx kvs field_names)"
  by pat_completeness auto
termination
  by (relation "inv_image (less_than <*lex*> less_than)
        (\<lambda>x. case x of
           Inl (p, obj, acc) \<Rightarrow> (size obj, Suc 0)
         | Inr (Inl (p, props, acc)) \<Rightarrow> (size (JObject props), 0)
         | Inr (Inr (p, kvs, acc)) \<Rightarrow> (size (JObject kvs), 0))")
     (auto dest: map_of_size_lt)

definition extract_field_names_from_mapping :: "json \<Rightarrow> exn + string list" where
  "extract_field_names_from_mapping mapping = extract_mapping_fields [] mapping []"

text \<open>The clause names whose body keys are field paths.\<close>

definition FIELD_QUERY_TYPES :: "string list" where
  "FIELD_QUERY_TYPES =
    [''term'', ''terms'', ''match'', ''match_phrase'', ''range'', ''exists'', ''prefix'',
     ''wildcard'', ''regexp'', ''fuzzy'']"

text \<open>
  One entry of a \<^verbatim>\<open>multi_match\<close> \<^verbatim>\<open>fields\<close> list: \<^verbatim>\<open>if "^" in field: field = field.split("^")[0]\<close>
  and then \<^verbatim>\<open>field_names.add(field)\<close>. On a string the boost suffix is cut at the first
  \<^verbatim>\<open>^\<close>. On a number, a boolean or \<^verbatim>\<open>None\<close> the membership test raises \<^verbatim>\<open>TypeError\<close>; on a
  list or a dict it is a membership test of the element \<^verbatim>\<open>"^"\<close>, after which \<^verbatim>\<open>split\<close> raises
  \<^verbatim>\<open>AttributeError\<close> or \<^verbatim>\<open>add\<close> raises \<^verbatim>\<open>TypeError\<close> (unhashable).
\<close>

fun multi_match_field :: "json \<Rightarrow> exn + string" where
  "multi_match_field (JString s) =
     Inr (if CHR ''^'' \<in> set s then takeWhile (\<lambda>c. c \<noteq> CHR ''^'') s else s)"
| "multi_match_field (JArray xs) =
     (if JString ''^'' \<in> set xs then Inl AttributeError else Inl TypeError)"
| "multi_match_field (JObject kvs) =
     (if ''^'' \<in> set (map fst kvs) then Inl AttributeError else Inl TypeError)"
| "multi_match_field _ = Inl TypeError"

fun multi_match_fields :: "json list \<Rightarrow> string list \<Rightarrow> exn + string list" where
  "multi_match_fields [] field_names = Inr field_names"
| "multi_match_fields (field # fields) field_names =
     (case multi_match_field field of
        Inl e \<Rightarrow> Inl e
      | Inr name \<Rightarrow> multi_match_fields fields (field_names @ [name]))"

text \<open>
  \<^verbatim>\<open>_extract_field_names_from_query\<close>. As above the model threads the names added so far in
  the order of the additions (a name can be added more than once). \<open>extract_items\<close> is the loop
  over the items of a \<^verbatim>\<open>dict\<close>, \<open>extract_list\<close> the loop over a list value.
\<close>

function extract_query_fields :: "json \<Rightarrow> string list \<Rightarrow> exn + string list"
  and extract_items :: "(string \<times> json) list \<Rightarrow> string list \<Rightarrow> exn + string list"
  and extract_list :: "json list \<Rightarrow> string list \<Rightarrow> exn + string list"
where
  "extract_query_fields obj field_names =
    (case obj of
       JObject kvs \<Rightarrow> extract_items kvs field_names
     | _ \<Rightarrow> Inr field_names)"
| "extract_items [] field_names = Inr field_names"
| "extract_items ((key, val) # kvs) field_names =
    (if key \<in> set FIELD_QUERY_TYPES then
       (case val of
          JObject body \<Rightarrow> extract_items kvs (field_names @ map fst body)
        | _ \<Rightarrow> extract_items kvs field_names)
     else if key = ''multi_match'' \<and> is_dict val
             \<and> (case val of JObject body \<Rightarrow> map_of body ''fields'' \<noteq> None | _ \<Rightarrow> False) then
       (case val of
          JObject body \<Rightarrow>
            (case map_of body ''fields'' of
               Some (JArray fields) \<Rightarrow>
                 (case multi_match_fields fields field_names of
                    Inl e \<Rightarrow> Inl e
                  | Inr field_names' \<Rightarrow> extract_items kvs field_names')
             | _ \<Rightarrow> extract_items kvs field_names)
        | _ \<Rightarrow> extract_items kvs field_names)
     else if is_dict val then
       (case extract_query_fields val field_names of
          Inl e \<Rightarrow> Inl e
        | Inr field_names' \<Rightarrow> extract_items kvs field_names')
     else
       (case val of
          JArray items \<Rightarrow>
            (case extract_list items field_names of
               Inl e \<Rightarrow> Inl e
             | Inr field_names' \<Rightarrow> extract_items kvs field_names')
        | _ \<Rightarrow> extract_items kvs field_names))"
| "extract_list [] field_names = Inr field_names"
| "extract_list (item # items) field_names =
    (if is_dict item \<or> is_list item then
       (case extract_query_fields item field_names of
          Inl e \<Rightarrow> Inl e
        | Inr field_names' \<Rightarrow> extract_list items field_names')
     else extract_list items field_names)"
  by pat_completeness auto
termination
  by (relation "inv_image (less_than <*lex*> less_than)
        (\<lambda>x. case x of
           Inl (obj, acc) \<Rightarrow> (size obj, Suc 0)
         | Inr (Inl (kvs, acc)) \<Rightarrow> (size (JObject kvs), 0)
         | Inr (Inr (xs, acc)) \<Rightarrow> (size (JArray xs), 0))")
     auto

definition extract_field_names_from_query :: "json \<Rightarrow> exn + string list" where
  "extract_field_names_from_query query_dict = extract_query_fields query_dict []"

section \<open>Conformance checker and \<open>validate\<close>\<close>

text \<open>
  \<^verbatim>\<open>_validate_against_mapping\<close>. \<^verbatim>\<open>query_fields\<close> is a Python \<^verbatim>\<open>set\<close> of strings, and the list
  comprehension walks it in the set's iteration order, which the language leaves open (it
  follows the strings' hashes, randomised for each process). The parameter \<open>set_order\<close> is
  that order: it maps the names in the order of their additions to the order in which the
  set yields them. Of \<^verbatim>\<open>field_names\<close> only membership is read.
\<close>

definition validate_against_mapping ::
  "(string list \<Rightarrow> string list) \<Rightarrow> json \<Rightarrow> json \<Rightarrow> exn + string option" where
  "validate_against_mapping set_order mapping query_dict =
    (if \<not> truthy mapping then Inr None
     else case extract_field_names_from_mapping mapping of
            Inl e \<Rightarrow> Inl e
          | Inr field_names \<Rightarrow>
              (case extract_field_names_from_query query_dict of
                 Inl e \<Rightarrow> Inl e
               | Inr query_fields \<Rightarrow>
                   (let unknown_fields =
                          filter (\<lambda>field. field \<notin> set field_names) (set_order query_fields) in
                    if unknown_fields \<noteq> []
                      then Inr (Some (''Unknown fields in query: '' @ join '', '' unknown_fields))
                    else Inr None)))"

text \<open>
  \<^verbatim>\<open>validate\<close>. The validator holds the mapping (\<^verbatim>\<open>None\<close> when there is none); a query given
  as a string is parsed first. \<open>loads\<close> is \<^verbatim>\<open>json.loads\<close>, returning the decoder's message on
  the left when it raises \<^verbatim>\<open>JSONDecodeError\<close>. The result is the pair the method returns, or
  the exception that leaves it.
\<close>

definition validate ::
  "(string \<Rightarrow> string + json) \<Rightarrow> (string list \<Rightarrow> string list) \<Rightarrow> json \<Rightarrow> json
     \<Rightarrow> exn + (bool \<times> string option)" where
  "validate loads set_order mapping query =
    (case (case query of JString s \<Rightarrow> loads s | _ \<Rightarrow> Inr query) of
       Inl e \<Rightarrow> Inr (False, Some (''Invalid JSON: '' @ e))
     | Inr (JObject query_dict) \<Rightarrow>
         (let top_level_errors = validate_top_level_structure query_dict in
          if is_error top_level_errors then Inr (False, top_level_errors)
          else
            (let query_errors =
                   (case map_of query_dict ''query'' of
                      None \<Rightarrow> None
                    | Some q \<Rightarrow> validate_query_structure q) in
             if is_error query_errors then Inr (False, query_errors)
             else if truthy mapping then
               (case validate_against_mapping set_order mapping (JObject query_dict) of
                  Inl e \<Rightarrow> Inl e
                | Inr mapping_errors \<Rightarrow>
                    if is_error mapping_errors then Inr (False, mapping_errors)
                    else Inr (True, None))
             else Inr (True, None)))
     | Inr _ \<Rightarrow> Inr (False, Some ''Query must be a JSON object''))"

section \<open>The specification's reading of the validator\<close>

text \<open>
  The definitions of this section follow the words of the specification, not the code; the
  theorems below compare them with the code.

  The boolean composition: "evaluating the four clause-bearing sub-keys in the fixed
  priority order must, must_not, should, filter regardless of their order in the input,
  each sub-key's value must be either a single clause or an array of clauses, each of which
  is recursively validated; the first sub-clause error encountered under this fixed
  priority order is the one reported". \<open>first_error\<close> is the first error of a list of
  results, \<open>sub_key_error\<close> the error of one sub-key, read from the body by its name alone.
\<close>

fun first_error :: "string option list \<Rightarrow> string option" where
  "first_error [] = None"
| "first_error (None # rs) = first_error rs"
| "first_error (Some e # rs) = Some e"

definition in_clause :: "string \<Rightarrow> string \<Rightarrow> string" where
  "in_clause clause e = ''Error in '' @ [CHR 0x27] @ clause @ ''' clause: '' @ e"

definition sub_key_error :: "(string \<times> json) list \<Rightarrow> string \<Rightarrow> string option" where
  "sub_key_error bool_query clause =
    (case map_of bool_query clause of
       None \<Rightarrow> None
     | Some (JObject kvs) \<Rightarrow> map_option (in_clause clause) (validate_query_structure (JObject kvs))
     | Some (JArray items) \<Rightarrow>
         map_option (in_clause clause) (first_error (map validate_query_structure items))
     | Some _ \<Rightarrow> Some ([CHR 0x27] @ clause @ ''' clause must be a JSON object or array''))"

text \<open>
  The clauses of section 4.3 of the specification, as a grammar: a clause is a non-empty
  object; its type is its first key; \<^verbatim>\<open>match_all\<close> may have an empty or null body; a
  boolean composition has an object body with keys of \<open>valid_bool_clauses\<close> only, and each
  of its four clause-bearing sub-keys holds a clause or an array of clauses; a nested
  composition has an object body with a path and a query that is a clause; every other
  clause type of the registry has a free body.
\<close>

inductive well_formed_clause :: "json \<Rightarrow> bool" where
  wf_match_all:
    "\<not> truthy body \<or> body = JObject [] \<Longrightarrow>
       well_formed_clause (JObject ((''match_all'', body) # rest))"
| wf_leaf:
    "t \<in> set VALID_QUERY_TYPES \<Longrightarrow> t \<noteq> ''bool'' \<Longrightarrow> t \<noteq> ''nested'' \<Longrightarrow>
       well_formed_clause (JObject ((t, body) # rest))"
| wf_bool:
    "set (map fst bq) \<subseteq> set valid_bool_clauses \<Longrightarrow>
     (\<forall>c v. c \<in> set [''must'', ''must_not'', ''should'', ''filter''] \<longrightarrow> map_of bq c = Some v \<longrightarrow>
        (is_dict v \<and> well_formed_clause v) \<or>
        (\<exists>items. v = JArray items \<and> (\<forall>i \<in> set items. well_formed_clause i))) \<Longrightarrow>
       well_formed_clause (JObject ((''bool'', JObject bq) # rest))"
| wf_nested:
    "map_of nq ''path'' \<noteq> None \<Longrightarrow> map_of nq ''query'' = Some q \<Longrightarrow> well_formed_clause q \<Longrightarrow>
       well_formed_clause (JObject ((''nested'', JObject nq) # rest))"

text \<open>A paging key, when present, holds a non-negative integer; a document has top-level
  keys of the registry only, well-formed paging keys and, under \<^verbatim>\<open>query\<close>, a well-formed
  clause.\<close>

definition paging_ok :: "(string \<times> json) list \<Rightarrow> string \<Rightarrow> bool" where
  "paging_ok query_dict key =
     (case map_of query_dict key of None \<Rightarrow> True | Some v \<Rightarrow> is_int v \<and> 0 \<le> int_value v)"

definition well_formed_document :: "(string \<times> json) list \<Rightarrow> bool" where
  "well_formed_document query_dict =
     (set (map fst query_dict) \<subseteq> set VALID_TOP_LEVEL_KEYS
      \<and> paging_ok query_dict ''size'' \<and> paging_ok query_dict ''from''
      \<and> (case map_of query_dict ''query'' of None \<Rightarrow> True | Some q \<Rightarrow> well_formed_clause q))"

section \<open>Tolerant extractor\<close>

text \<open>
  \<^verbatim>\<open>parse_query_string\<close> searches the text with two regular expressions. A pattern is
  modelled by the backtracking matcher it denotes: a matcher takes the text that is left and
  a continuation for the rest of the pattern, and returns the first result in the order in
  which Python's \<^verbatim>\<open>re\<close> tries the alternatives. \<open>lit\<close> is a literal, \<open>opt_greedy\<close> is
  \<^verbatim>\<open>(?:r)?\<close> (with \<^verbatim>\<open>r\<close> first, then without), \<open>star_greedy\<close> is \<^verbatim>\<open>c*\<close> for a character class
  (the longest run first), \<open>star_lazy\<close> is \<^verbatim>\<open>c*?\<close> (the shortest run first), and \<open>group\<close>
  hands the text that its pattern consumed to the continuation.
\<close>

definition lit :: "string \<Rightarrow> string \<Rightarrow> (string \<Rightarrow> 'a option) \<Rightarrow> 'a option" where
  "lit l s k = (if prefix l s then k (drop (length l) s) else None)"

definition opt_greedy ::
  "(string \<Rightarrow> (string \<Rightarrow> 'a option) \<Rightarrow> 'a option) \<Rightarrow> string \<Rightarrow> (string \<Rightarrow> 'a option) \<Rightarrow> 'a option" where
  "opt_greedy r s k = (case r s k of Some x \<Rightarrow> Some x | None \<Rightarrow> k s)"

fun star_greedy :: "(char \<Rightarrow> bool) \<Rightarrow> string \<Rightarrow> (string \<Rightarrow> 'a option) \<Rightarrow> 'a option" where
  "star_greedy cls [] k = k []"
| "star_greedy cls (c # cs) k =
     (if cls c then (case star_greedy cls cs k of Some x \<Rightarrow> Some x | None \<Rightarrow> k (c # cs))
      else k (c # cs))"

fun star_lazy :: "(char \<Rightarrow> bool) \<Rightarrow> string \<Rightarrow> (string \<Rightarrow> 'a option) \<Rightarrow> 'a option" where
  "star_lazy cls [] k = k []"
| "star_lazy cls (c # cs) k =
     (case k (c # cs) of
        Some x \<Rightarrow> Some x
      | None \<Rightarrow> if cls c then star_lazy cls cs k else None)"

definition group ::
  "(string \<Rightarrow> (string \<Rightarrow> 'a option) \<Rightarrow> 'a option) \<Rightarrow> string
     \<Rightarrow> (string \<Rightarrow> string \<Rightarrow> 'a option) \<Rightarrow> 'a option" where
  "group r s k = r s (\<lambda>rest. k (take (length s - length rest) s) rest)"

text \<open>\<^verbatim>\<open>re.search\<close>: the pattern is tried at every position from the left, the end of the
  text included.\<close>

fun re_search :: "(string \<Rightarrow> 'a option) \<Rightarrow> string \<Rightarrow> 'a option" where
  "re_search m [] = m []"
| "re_search m (c # cs) = (case m (c # cs) of Some x \<Rightarrow> Some x | None \<Rightarrow> re_search m cs)"

text \<open>
  The class \<^verbatim>\<open>\s\<close> of a \<^verbatim>\<open>str\<close> pattern: the characters of \<^verbatim>\<open>str.isspace\<close>, which below 256 are
  9 to 13, 28 to 32, 133 and 160. \<^verbatim>\<open>[\s\S]\<close> is every character.
\<close>

definition is_space :: "char \<Rightarrow> bool" where
  "is_space c = (let n = (of_char c :: nat) in
                  (9 \<le> n \<and> n \<le> 13) \<or> (28 \<le> n \<and> n \<le> 32) \<or> n = 133 \<or> n = 160)"

definition any_char :: "char \<Rightarrow> bool" where
  "any_char c = True"

text \<open>The pattern \<^verbatim>\<open>```(?:json)?\s*([\s\S]*?)\s*```\<close> at the head of a text; the result is
  group 1.\<close>

definition fence_here :: "string \<Rightarrow> string option" where
  "fence_here s =
     lit ''```'' s (\<lambda>s1.
     opt_greedy (lit ''json'') s1 (\<lambda>s2.
     star_greedy is_space s2 (\<lambda>s3.
     group (star_lazy any_char) s3 (\<lambda>g s4.
     star_greedy is_space s4 (\<lambda>s5.
     lit ''```'' s5 (\<lambda>s6. Some g))))))"

text \<open>The pattern \<^verbatim>\<open>({[\s\S]*})\<close> at the head of a text; the result is group 1.\<close>

definition brace_here :: "string \<Rightarrow> string option" where
  "brace_here s =
     group (\<lambda>s0 k. lit ''{'' s0 (\<lambda>s1. star_greedy any_char s1 (\<lambda>s2. lit ''}'' s2 k))) s
       (\<lambda>g s3. Some g)"

text \<open>
  \<^verbatim>\<open>parse_query_string\<close>. \<open>loads\<close> is \<^verbatim>\<open>json.loads\<close>, with the decoder's message on the left
  when it raises \<^verbatim>\<open>JSONDecodeError\<close>. The result is the parsed value, or on the left the
  message of the \<^verbatim>\<open>ValueError\<close> that the function raises: the handler
  \<^verbatim>\<open>except Exception as e\<close> wraps every failure of the inner block, the explicit
  \<^verbatim>\<open>raise ValueError\<close> included.
\<close>

definition invalid_query_string :: "string \<Rightarrow> string" where
  "invalid_query_string e = ''Invalid JSON query string: '' @ e"

definition parse_query_string :: "(string \<Rightarrow> string + json) \<Rightarrow> string \<Rightarrow> string + json" where
  "parse_query_string loads query_string =
     (case loads query_string of
        Inr v \<Rightarrow> Inr v
      | Inl _ \<Rightarrow>
          (case re_search fence_here query_string of
             Some g \<Rightarrow>
               (case loads g of
                  Inr v \<Rightarrow> Inr v
                | Inl e \<Rightarrow> Inl (invalid_query_string e))
           | None \<Rightarrow>
               (case re_search brace_here query_string of
                  Some g \<Rightarrow>
                    (case loads g of
                       Inr v \<Rightarrow> Inr v
                     | Inl e \<Rightarrow> Inl (invalid_query_string e))
                | None \<Rightarrow>
                    Inl (invalid_query_string
                          ''Could not extract valid JSON from the query string''))))"

section \<open>The JSON decoder and encoder\<close>

text \<open>
  \<^verbatim>\<open>json.loads\<close> and \<^verbatim>\<open>json.dumps\<close> belong to Python's library, not to the repository: the
  functions above take \<^verbatim>\<open>json.loads\<close> as the parameter \<open>loads\<close>. To run them on a text, this
  section models the decoder on the JSON grammar as the library reads it (whitespace, the
  three literals, integers, strings with their escapes, arrays, objects; a repeated key
  keeps its first place and its last value) and the encoder with its default options.
  Outside the model are number literals with a fraction or an exponent, \<^verbatim>\<open>NaN\<close> and the
  infinities (their values are floats), escapes \<^verbatim>\<open>\uXXXX\<close> of code points above 255 and the
  text of the decoder's message: on the first three \<open>json_loads\<close> reports an error, and its
  message is always the name of the exception.
\<close>

definition is_json_ws :: "char \<Rightarrow> bool" where
  "is_json_ws c = (c = CHR '' '' \<or> c = CHR 0x09 \<or> c = CHR 0x0A \<or> c = CHR 0x0D)"

definition skip_ws :: "string \<Rightarrow> string" where
  "skip_ws s = dropWhile is_json_ws s"

definition is_digit :: "char \<Rightarrow> bool" where
  "is_digit c = (48 \<le> (of_char c :: nat) \<and> (of_char c :: nat) \<le> 57)"

definition digit_value :: "char \<Rightarrow> nat" where
  "digit_value c = of_char c - 48"

definition nat_of_digits :: "string \<Rightarrow> nat" where
  "nat_of_digits ds = foldl (\<lambda>n c. 10 * n + digit_value c) 0 ds"

text \<open>The tail of a number literal that makes it a float: \<^verbatim>\<open>(\.\d+)?([eE][-+]?\d+)?\<close>
  matching a non-empty text.\<close>

fun is_float_tail :: "string \<Rightarrow> bool" where
  "is_float_tail (c # d # e # r) =
     ((c = CHR ''.'' \<and> is_digit d) \<or>
      ((c = CHR ''e'' \<or> c = CHR ''E'') \<and>
         (is_digit d \<or> ((d = CHR ''-'' \<or> d = CHR ''+'') \<and> is_digit e))))"
| "is_float_tail [c, d] =
     ((c = CHR ''.'' \<or> c = CHR ''e'' \<or> c = CHR ''E'') \<and> is_digit d)"
| "is_float_tail _ = False"

text \<open>The integer part \<^verbatim>\<open>-?(?:0|[1-9]\d*)\<close> of a number literal, and the number.\<close>

definition int_digits :: "string \<Rightarrow> string" where
  "int_digits s =
     (case s of
        [] \<Rightarrow> []
      | c # r \<Rightarrow> if c = CHR ''0'' then ''0'' else takeWhile is_digit s)"

definition scan_number :: "string \<Rightarrow> (json \<times> string) option" where
  "scan_number s =
     (let neg = (s \<noteq> [] \<and> hd s = CHR ''-'');
          s1 = (if neg then tl s else s);
          digits = int_digits s1;
          rest = drop (length digits) s1
      in if digits = [] \<or> is_float_tail rest then None
         else Some (JInt (if neg then - int (nat_of_digits digits)
                          else int (nat_of_digits digits)), rest))"

text \<open>The escapes of a string literal.\<close>

definition simple_escape :: "char \<Rightarrow> char option" where
  "simple_escape e =
     (if e = CHR 0x22 then Some (CHR 0x22)
      else if e = CHR 0x5C then Some (CHR 0x5C)
      else if e = CHR ''/'' then Some (CHR ''/'')
      else if e = CHR ''b'' then Some (CHR 0x08)
      else if e = CHR ''f'' then Some (CHR 0x0C)
      else if e = CHR ''n'' then Some (CHR 0x0A)
      else if e = CHR ''r'' then Some (CHR 0x0D)
      else if e = CHR ''t'' then Some (CHR 0x09)
      else None)"

definition hex_value :: "char \<Rightarrow> nat option" where
  "hex_value c =
     (let n = (of_char c :: nat) in
      if 48 \<le> n \<and> n \<le> 57 then Some (n - 48)
      else if 97 \<le> n \<and> n \<le> 102 then Some (n - 87)
      else if 65 \<le> n \<and> n \<le> 70 then Some (n - 55)
      else None)"

definition hex4 :: "char \<Rightarrow> char \<Rightarrow> char \<Rightarrow> char \<Rightarrow> nat option" where
  "hex4 a b c d =
     (case (hex_value a, hex_value b, hex_value c, hex_value d) of
        (Some x, Some y, Some z, Some w) \<Rightarrow> Some (((x * 16 + y) * 16 + z) * 16 + w)
      | _ \<Rightarrow> None)"

text \<open>\<^verbatim>\<open>scanstring\<close> in strict mode, from the character after the opening quote: the
  content and the text after the closing quote.\<close>

fun scan_string :: "string \<Rightarrow> (string \<times> string) option" where
  "scan_string [] = None"
| "scan_string (c # cs) =
     (if c = CHR 0x22 then Some ([], cs)
      else if c = CHR 0x5C then
        (case cs of
           [] \<Rightarrow> None
         | e # r \<Rightarrow>
             if e = CHR ''u'' then
               (case r of
                  h1 # h2 # h3 # h4 # r' \<Rightarrow>
                    (case hex4 h1 h2 h3 h4 of
                       None \<Rightarrow> None
                     | Some n \<Rightarrow>
                         if n < 256
                           then map_option (\<lambda>(str, rest). (char_of n # str, rest)) (scan_string r')
                         else None)
                | _ \<Rightarrow> None)
             else
               (case simple_escape e of
                  None \<Rightarrow> None
                | Some ch \<Rightarrow> map_option (\<lambda>(str, rest). (ch # str, rest)) (scan_string r)))
      else if (of_char c :: nat) < 32 then None
      else map_option (\<lambda>(str, rest). (c # str, rest)) (scan_string cs))"

text \<open>\<^verbatim>\<open>d[k] = v\<close> on a \<^verbatim>\<open>dict\<close>, and the \<^verbatim>\<open>dict\<close> of a list of pairs.\<close>

fun dict_set :: "(string \<times> json) list \<Rightarrow> string \<Rightarrow> json \<Rightarrow> (string \<times> json) list" where
  "dict_set [] k v = [(k, v)]"
| "dict_set ((k', v') # kvs) k v =
     (if k' = k then (k, v) # kvs else (k', v') # dict_set kvs k v)"

definition dict_of :: "(string \<times> json) list \<Rightarrow> (string \<times> json) list" where
  "dict_of pairs = foldl (\<lambda>d (k, v). dict_set d k v) [] pairs"

text \<open>
  The scanner: \<open>scan_once\<close> reads one value at the head of the text, \<open>scan_array_items\<close> the
  items of a non-empty array up to its bracket, \<open>scan_object_members\<close> the members of a
  non-empty object from the quote of a key up to its brace. The first argument bounds the
  number of nested calls; \<open>json_loads\<close> starts it above the length of the text, and every
  nested call has read a character.
\<close>

fun scan_once :: "nat \<Rightarrow> string \<Rightarrow> (json \<times> string) option"
  and scan_array_items :: "nat \<Rightarrow> string \<Rightarrow> (json list \<times> string) option"
  and scan_object_members :: "nat \<Rightarrow> string \<Rightarrow> ((string \<times> json) list \<times> string) option"
where
  "scan_once 0 s = None"
| "scan_once (Suc n) s =
     (case s of
        [] \<Rightarrow> None
      | c # cs \<Rightarrow>
          if c = CHR 0x22 then map_option (\<lambda>(str, r). (JString str, r)) (scan_string cs)
          else if c = CHR ''{'' then
            (case skip_ws cs of
               [] \<Rightarrow> None
             | d # r \<Rightarrow>
                 if d = CHR ''}'' then Some (JObject [], r)
                 else map_option (\<lambda>(pairs, r'). (JObject (dict_of pairs), r'))
                        (scan_object_members n (d # r)))
          else if c = CHR ''['' then
            (case skip_ws cs of
               [] \<Rightarrow> None
             | d # r \<Rightarrow>
                 if d = CHR '']'' then Some (JArray [], r)
                 else map_option (\<lambda>(items, r'). (JArray items, r'))
                        (scan_array_items n (d # r)))
          else if prefix ''null'' s then Some (JNull, drop 4 s)
          else if prefix ''true'' s then Some (JBool True, drop 4 s)
          else if prefix ''false'' s then Some (JBool False, drop 5 s)
          else scan_number s)"
| "scan_array_items 0 s = None"
| "scan_array_items (Suc n) s =
     (case scan_once n s of
        None \<Rightarrow> None
      | Some (v, r) \<Rightarrow>
          (case skip_ws r of
             [] \<Rightarrow> None
           | c # r' \<Rightarrow>
               if c = CHR '']'' then Some ([v], r')
               else if c = CHR '','' then
                 map_option (\<lambda>(items, r''). (v # items, r'')) (scan_array_items n (skip_ws r'))
               else None))"
| "scan_object_members 0 s = None"
| "scan_object_members (Suc n) s =
     (case s of
        [] \<Rightarrow> None
      | c # cs \<Rightarrow>
          if c \<noteq> CHR 0x22 then None
          else
            (case scan_string cs of
               None \<Rightarrow> None
             | Some (key, r) \<Rightarrow>
                 (case skip_ws r of
                    [] \<Rightarrow> None
                  | d # r1 \<Rightarrow>
                      if d \<noteq> CHR '':'' then None
                      else
                        (case scan_once n (skip_ws r1) of
                           None \<Rightarrow> None
                         | Some (v, r2) \<Rightarrow>
                             (case skip_ws r2 of
                                [] \<Rightarrow> None
                              | e # r3 \<Rightarrow>
                                  if e = CHR ''}'' then Some ([(key, v)], r3)
                                  else if e = CHR '','' then
                                    map_option (\<lambda>(pairs, r4). ((key, v) # pairs, r4))
                                      (scan_object_members n (skip_ws r3))
                                  else None)))))"

text \<open>\<^verbatim>\<open>json.loads\<close>: whitespace, one value, whitespace, and the end of the text.\<close>

definition json_loads :: "string \<Rightarrow> string + json" where
  "json_loads s =
     (case scan_once (Suc (length s)) (skip_ws s) of
        None \<Rightarrow> Inl ''JSONDecodeError''
      | Some (v, r) \<Rightarrow> if skip_ws r = [] then Inr v else Inl ''JSONDecodeError'')"








section \<open>The specification's reading of the tolerant extractor\<close>

text \<open>
  The definitions of this section follow the words of the specification or describe a text
  directly, without the matcher; the theorems below compare them with the code.

  "Strategies, tried in this fixed order, first success wins": the whole text, the
  interior of the fenced block, the brace span; each candidate is parsed, and the first
  value that parses is the result.
\<close>

fun first_success :: "(string + json) list \<Rightarrow> json option" where
  "first_success [] = None"
| "first_success (Inr v # rs) = Some v"
| "first_success (Inl e # rs) = first_success rs"

definition candidate :: "(string \<Rightarrow> string + json) \<Rightarrow> string option \<Rightarrow> string + json" where
  "candidate loads c = (case c of None \<Rightarrow> Inl [] | Some g \<Rightarrow> loads g)"

definition spec_recover :: "(string \<Rightarrow> string + json) \<Rightarrow> string \<Rightarrow> json option" where
  "spec_recover loads s =
     first_success [loads s,
                    candidate loads (re_search fence_here s),
                    candidate loads (re_search brace_here s)]"

text \<open>A text has a fenced block when it holds two triple-backtick markers, one after the
  other.\<close>

definition has_fence :: "string \<Rightarrow> bool" where
  "has_fence s = (\<exists>a b c. s = a @ ''```'' @ b @ ''```'' @ c)"

text \<open>
  The interior of the first fenced block. \<open>split_at_marker\<close> cuts a text at its first
  marker: the text before it and the text after it. The interior is what lies between the
  first marker of the text and the next marker after it, without a \<^verbatim>\<open>json\<close> tag that follows
  the first marker and without the whitespace at its two ends.
\<close>

definition marker :: string where
  "marker = ''```''"

fun split_at_marker :: "string \<Rightarrow> (string \<times> string) option" where
  "split_at_marker [] = None"
| "split_at_marker (c # cs) =
     (if prefix marker (c # cs) then Some ([], drop 3 (c # cs))
      else map_option (\<lambda>(a, b). (c # a, b)) (split_at_marker cs))"

definition rstrip :: "string \<Rightarrow> string" where
  "rstrip s = rev (dropWhile is_space (rev s))"

definition after_marker :: "string \<Rightarrow> string option" where
  "after_marker r =
     (case split_at_marker (dropWhile is_space (if prefix ''json'' r then drop 4 r else r)) of
        None \<Rightarrow> None
      | Some (g, c) \<Rightarrow> Some (rstrip g))"

definition fence_interior :: "string \<Rightarrow> string option" where
  "fence_interior s =
     (case split_at_marker s of
        None \<Rightarrow> None
      | Some (a, r) \<Rightarrow> after_marker r)"

text \<open>The span from the first \<^verbatim>\<open>{\<close> of a text to its last \<^verbatim>\<open>}\<close>, when a \<^verbatim>\<open>}\<close> follows
  the first \<^verbatim>\<open>{\<close>.\<close>

definition up_to_last_brace :: "string \<Rightarrow> string" where
  "up_to_last_brace s = rev (dropWhile (\<lambda>c. c \<noteq> CHR ''}'') (rev s))"

definition first_to_last_brace :: "string \<Rightarrow> string option" where
  "first_to_last_brace s =
     (case dropWhile (\<lambda>c. c \<noteq> CHR ''{'') s of
        [] \<Rightarrow> None
      | c # cs \<Rightarrow> if CHR ''}'' \<in> set cs then Some (c # up_to_last_brace cs) else None)"

text \<open>
  "The first substring that begins at the first \<^verbatim>\<open>{\<close> character and extends to the
  structurally matching closing \<^verbatim>\<open>}\<close>": \<open>matching_close\<close> walks the text after a \<^verbatim>\<open>{\<close> with
  the number of braces that are open and stops at the brace that closes the first one.
\<close>

fun matching_close :: "nat \<Rightarrow> string \<Rightarrow> string option" where
  "matching_close d [] = None"
| "matching_close d (c # cs) =
     (if c = CHR ''{'' then map_option ((#) c) (matching_close (Suc d) cs)
      else if c = CHR ''}'' then
        (case d of 0 \<Rightarrow> Some [c] | Suc d' \<Rightarrow> map_option ((#) c) (matching_close d' cs))
      else map_option ((#) c) (matching_close d cs))"

definition balanced_span :: "string \<Rightarrow> string option" where
  "balanced_span s =
     (case dropWhile (\<lambda>c. c \<noteq> CHR ''{'') s of
        [] \<Rightarrow> None
      | c # cs \<Rightarrow> map_option ((#) c) (matching_close 0 cs))"





declare validate_query_structure.simps [simp del]

lemma vqs_not_dict: "\<not> is_dict q \<Longrightarrow> validate_query_structure q = Some '''query' must be a JSON object''"
  by (cases q) (simp_all add: validate_query_structure.simps)

lemma vqs_empty: "validate_query_structure (JObject []) = Some '''query' cannot be empty''"
  by (simp add: validate_query_structure.simps)

lemma vqs_cons:
  "validate_query_structure (JObject ((query_type, body) # rest)) =
     (if query_type = ''match_all'' \<and> (\<not> truthy body \<or> body = JObject []) then None
      else if query_type \<notin> set VALID_QUERY_TYPES
        then Some (''Unknown query type: '' @ query_type)
      else if query_type = ''bool'' then
        (case body of
           JObject bool_query \<Rightarrow>
             (let unknown_clauses =
                    filter (\<lambda>clause. clause \<notin> set valid_bool_clauses) (map fst bool_query) in
              if unknown_clauses \<noteq> []
                then Some (''Unknown 'bool' clauses: '' @ join '', '' unknown_clauses)
              else validate_bool_clauses bool_query
                     [''must'', ''must_not'', ''should'', ''filter''])
         | _ \<Rightarrow> Some '''bool' query must be a JSON object'')
      else if query_type = ''nested'' then
        (case body of
           JObject nested_query \<Rightarrow>
             if map_of nested_query ''path'' = None
               then Some '''nested' query must have a 'path' field''
             else (case map_of nested_query ''query'' of
                     None \<Rightarrow> Some '''nested' query must have a 'query' field''
                   | Some q \<Rightarrow>
                       (let query_error = validate_query_structure q in
                        if is_error query_error
                          then Some (''Error in 'nested' query: '' @ the query_error)
                        else None))
         | _ \<Rightarrow> Some '''nested' query must be a JSON object'')
      else None)"
  by (subst validate_query_structure.simps) simp

lemma validate_items_not_empty_message: "validate_items clause items \<noteq> Some []"
  by (induction items) (auto simp: Let_def)

lemma validate_bool_clauses_not_empty_message: "validate_bool_clauses bq cs \<noteq> Some []"
proof (induction cs)
  case Nil
  then show ?case by simp
next
  case (Cons c cs)
  show ?case
  proof (cases "map_of bq c")
    case None
    with Cons show ?thesis by simp
  next
    case (Some v)
    with Cons show ?thesis
      by (cases v) (auto simp: Let_def validate_items_not_empty_message)
  qed
qed

lemma vqs_not_empty_message: "validate_query_structure q \<noteq> Some []"
proof (cases q)
  case (JObject kvs)
  show ?thesis
  proof (cases kvs)
    case Nil
    with JObject show ?thesis by (simp add: vqs_empty)
  next
    case (Cons kv rest)
    obtain k b where kv: "kv = (k, b)" by (cases kv)
    have bool: "(case b of
           JObject bool_query \<Rightarrow>
             (let unknown_clauses =
                    filter (\<lambda>clause. clause \<notin> set valid_bool_clauses) (map fst bool_query) in
              if unknown_clauses \<noteq> []
                then Some (''Unknown 'bool' clauses: '' @ join '', '' unknown_clauses)
              else validate_bool_clauses bool_query
                     [''must'', ''must_not'', ''should'', ''filter''])
         | _ \<Rightarrow> Some '''bool' query must be a JSON object'') \<noteq> Some []"
      by (cases b) (simp_all add: Let_def validate_bool_clauses_not_empty_message del: validate_bool_clauses.simps)
    have nested: "(case b of
           JObject nested_query \<Rightarrow>
             if map_of nested_query ''path'' = None
               then Some '''nested' query must have a 'path' field''
             else (case map_of nested_query ''query'' of
                     None \<Rightarrow> Some '''nested' query must have a 'query' field''
                   | Some q \<Rightarrow>
                       (let query_error = validate_query_structure q in
                        if is_error query_error
                          then Some (''Error in 'nested' query: '' @ the query_error)
                        else None))
         | _ \<Rightarrow> Some '''nested' query must be a JSON object'') \<noteq> Some []"
      by (cases b) (simp_all add: Let_def split: option.splits)
    show ?thesis unfolding JObject Cons kv vqs_cons
      using bool nested by (simp del: validate_bool_clauses.simps)
  qed
qed (simp_all add: vqs_not_dict)

lemma is_error_vqs [simp]: "is_error (validate_query_structure q) = (validate_query_structure q \<noteq> None)"
  using vqs_not_empty_message [of q] by (cases "validate_query_structure q") auto

lemma is_error_validate_items [simp]:
  "is_error (validate_items c xs) = (validate_items c xs \<noteq> None)"
  using validate_items_not_empty_message [of c xs] by (cases "validate_items c xs") auto


lemma validate_object:
  "validate loads set_order mapping (JObject query_dict) =
    (let top_level_errors = validate_top_level_structure query_dict in
          if is_error top_level_errors then Inr (False, top_level_errors)
          else
            (let query_errors =
                   (case map_of query_dict ''query'' of
                      None \<Rightarrow> None
                    | Some q \<Rightarrow> validate_query_structure q) in
             if is_error query_errors then Inr (False, query_errors)
             else if truthy mapping then
               (case validate_against_mapping set_order mapping (JObject query_dict) of
                  Inl e \<Rightarrow> Inl e
                | Inr mapping_errors \<Rightarrow>
                    if is_error mapping_errors then Inr (False, mapping_errors)
                    else Inr (True, None))
             else Inr (True, None)))"
  by (simp add: validate_def)


subsection \<open>Joined messages\<close>

lemma sublist_prepend: "sublist xs ys \<Longrightarrow> sublist xs (ps @ ys)"
proof -
  assume "sublist xs ys"
  then obtain p s where "ys = p @ xs @ s" by (auto simp: sublist_def)
  then have "ps @ ys = (ps @ p) @ xs @ s" by simp
  then show ?thesis unfolding sublist_def by blast
qed

lemma sublist_join: "k \<in> set ks \<Longrightarrow> sublist k (join sep ks)"
proof (induction sep ks rule: join.induct)
  case (1 sep)
  then show ?case by simp
next
  case (2 sep x)
  then show ?case by simp
next
  case (3 sep x y ys)
  show ?case
  proof (cases "k = x")
    case True
    then show ?thesis by (simp add: sublist_append_rightI)
  next
    case False
    with 3 have "sublist k (join sep (y # ys))" by simp
    then have "sublist k ((x @ sep) @ join sep (y # ys))" by (rule sublist_prepend)
    then show ?thesis by simp
  qed
qed

subsection \<open>The loops of the boolean composition\<close>

lemma validate_items_first_error:
  "validate_items clause items =
     map_option (in_clause clause) (first_error (map validate_query_structure items))"
proof (induction items)
  case Nil
  then show ?case by simp
next
  case (Cons x xs)
  then show ?case
    using vqs_not_empty_message [of x]
    by (cases "validate_query_structure x") (simp_all add: Let_def in_clause_def)
qed

lemma validate_bool_clauses_first_error:
  "validate_bool_clauses bq cs = first_error (map (sub_key_error bq) cs)"
proof (induction cs)
  case Nil
  then show ?case by simp
next
  case (Cons c cs)
  show ?case
  proof (cases "map_of bq c")
    case None
    with Cons show ?thesis by (simp add: sub_key_error_def)
  next
    case (Some v)
    show ?thesis
    proof (cases v)
      case (JArray items)
      with Some Cons validate_items_not_empty_message [of c items] show ?thesis
        by (cases "validate_items c items")
           (simp_all add: sub_key_error_def Let_def validate_items_first_error [symmetric])
    next
      case (JObject kvs)
      with Some Cons vqs_not_empty_message [of "JObject kvs"] show ?thesis
        by (cases "validate_query_structure (JObject kvs)")
           (simp_all add: sub_key_error_def Let_def in_clause_def)
    qed (use Some Cons in \<open>simp_all add: sub_key_error_def\<close>)
  qed
qed

lemma sub_key_error_perm:
  assumes "distinct (map fst bq)" "distinct (map fst bq')" "set bq = set bq'"
  shows "sub_key_error bq c = sub_key_error bq' c"
proof -
  from assms have "map_of bq = map_of bq'" by (rule map_of_inject_set [THEN iffD2])
  then show ?thesis by (simp add: sub_key_error_def)
qed

lemma vqs_bool_first_error:
  assumes "set (map fst bq) \<subseteq> set valid_bool_clauses"
  shows "validate_query_structure (JObject ((''bool'', JObject bq) # rest)) =
        first_error [sub_key_error bq ''must'', sub_key_error bq ''must_not'',
                     sub_key_error bq ''should'', sub_key_error bq ''filter'']"
proof -
  from assms have "filter (\<lambda>clause. clause \<notin> set valid_bool_clauses) (map fst bq) = []"
    by (auto simp: filter_empty_conv)
  then show ?thesis
    by (simp add: vqs_cons VALID_QUERY_TYPES_def validate_bool_clauses_first_error
             del: validate_bool_clauses.simps)
qed

lemma sub_key_error_shape:
  "sub_key_error bq c = Some m \<Longrightarrow>
     (\<exists>e. m = in_clause c e) \<or> m = [CHR 0x27] @ c @ ''' clause must be a JSON object or array''"
  by (auto simp: sub_key_error_def split: option.splits json.splits)

subsection \<open>Accepted clauses are the well-formed ones\<close>

lemma first_error_None: "first_error rs = None \<longleftrightarrow> (\<forall>r \<in> set rs. r = None)"
  by (induction rs rule: first_error.induct) auto

lemma sub_key_error_None:
  "sub_key_error bq c = None \<longleftrightarrow>
     (case map_of bq c of None \<Rightarrow> True
      | Some (JObject kvs) \<Rightarrow> validate_query_structure (JObject kvs) = None
      | Some (JArray items) \<Rightarrow> (\<forall>i \<in> set items. validate_query_structure i = None)
      | Some _ \<Rightarrow> False)"
  by (auto simp: sub_key_error_def first_error_None split: option.splits json.splits)

lemma well_formed_clause_accepted: "well_formed_clause q \<Longrightarrow> validate_query_structure q = None"
proof (induction rule: well_formed_clause.induct)
  case (wf_match_all body rest)
  then show ?case by (simp add: vqs_cons)
next
  case (wf_leaf t body rest)
  then show ?case by (simp add: vqs_cons)
next
  case (wf_bool bq rest)
  have "sub_key_error bq c = None" if "c \<in> set [''must'', ''must_not'', ''should'', ''filter'']" for c
  proof (cases "map_of bq c")
    case None
    then show ?thesis by (simp add: sub_key_error_None)
  next
    case (Some v)
    with wf_bool.IH that
    have "(is_dict v \<and> validate_query_structure v = None) \<or>
        (\<exists>items. v = JArray items \<and> (\<forall>i \<in> set items. validate_query_structure i = None))"
      by blast
    with Some show ?thesis by (cases v) (auto simp: sub_key_error_None)
  qed
  then have "first_error [sub_key_error bq ''must'', sub_key_error bq ''must_not'',
                     sub_key_error bq ''should'', sub_key_error bq ''filter''] = None"
    by (simp add: first_error_None)
  with vqs_bool_first_error [of bq rest] wf_bool.hyps show ?case by simp
next
  case (wf_nested nq q rest)
  then show ?case by (auto simp: vqs_cons VALID_QUERY_TYPES_def)
qed

lemma size_lookup: "map_of kvs k = Some v \<Longrightarrow> size v < size (JObject kvs)"
  using map_of_size_lt [of kvs k v] by simp

lemma size_item: "i \<in> set items \<Longrightarrow> size i < size (JArray items)"
  by (induction items) auto

lemma accepted_well_formed_clause: "validate_query_structure q = None \<Longrightarrow> well_formed_clause q"
proof (induction q rule: measure_induct_rule [of size])
  case (less q)
  show ?case
  proof (cases q)
    case (JObject kvs)
    show ?thesis
    proof (cases kvs)
      case Nil
      with JObject less.prems show ?thesis by (simp add: vqs_empty)
    next
      case (Cons kv rest)
      obtain t body where kv: "kv = (t, body)" by (cases kv)
      note q = JObject Cons kv
      show ?thesis
      proof (cases "t = ''match_all'' \<and> (\<not> truthy body \<or> body = JObject [])")
        case True
        then show ?thesis unfolding q by (auto intro: wf_match_all)
      next
        case special: False
        with less.prems have known: "t \<in> set VALID_QUERY_TYPES"
          unfolding q vqs_cons by (simp split: if_splits)
        show ?thesis
        proof (cases "t = ''bool''")
          case True
          with less.prems special known obtain bq where body: "body = JObject bq"
            unfolding q vqs_cons by (cases body) (simp_all split: if_splits)
          from less.prems special known True body
          have keys: "filter (\<lambda>clause. clause \<notin> set valid_bool_clauses) (map fst bq) = []"
            and ok: "validate_bool_clauses bq [''must'', ''must_not'', ''should'', ''filter''] = None"
            unfolding q vqs_cons
            by (simp_all add: Let_def del: validate_bool_clauses.simps split: if_splits)
          from keys have sub: "set (map fst bq) \<subseteq> set valid_bool_clauses"
            by (auto simp: filter_empty_conv)
          have "(is_dict v \<and> well_formed_clause v) \<or>
                (\<exists>items. v = JArray items \<and> (\<forall>i \<in> set items. well_formed_clause i))"
            if c: "c \<in> set [''must'', ''must_not'', ''should'', ''filter'']"
              and v: "map_of bq c = Some v" for c v
          proof -
            from ok c have "sub_key_error bq c = None"
              unfolding validate_bool_clauses_first_error first_error_None by auto
            with v have *: "case v of
                 JObject kvs \<Rightarrow> validate_query_structure (JObject kvs) = None
               | JArray items \<Rightarrow> (\<forall>i \<in> set items. validate_query_structure i = None)
               | _ \<Rightarrow> False"
              by (simp add: sub_key_error_None)
            have vq: "size v < size q"
              using size_lookup [OF v] unfolding q body by simp
            show ?thesis
            proof (cases v)
              case (JObject kvs')
              with * vq less.IH [of v] show ?thesis by simp
            next
              case (JArray items)
              have "well_formed_clause i" if "i \<in> set items" for i
              proof -
                from size_item [OF that] vq JArray have "size i < size q" by simp
                moreover from * JArray that have "validate_query_structure i = None" by simp
                ultimately show ?thesis by (rule less.IH)
              qed
              with JArray show ?thesis by simp
            qed (use * in simp_all)
          qed
          with sub show ?thesis unfolding q body True by (intro wf_bool) blast+
        next
          case nb: False
          show ?thesis
          proof (cases "t = ''nested''")
            case True
            with less.prems special known obtain nq where body: "body = JObject nq"
              unfolding q vqs_cons by (cases body) (simp_all add: split: if_splits)
            from less.prems special known True body
            have path: "map_of nq ''path'' \<noteq> None"
              unfolding q vqs_cons by (simp split: if_splits)
            with less.prems special known True body
            obtain q' where q': "map_of nq ''query'' = Some q'"
              and ok: "validate_query_structure q' = None"
              unfolding q vqs_cons by (simp add: Let_def split: if_splits option.splits)
            have "size q' < size q" using size_lookup [OF q'] unfolding q body by simp
            with ok have "well_formed_clause q'" by (intro less.IH)
            with path q' show ?thesis unfolding q body True by (intro wf_nested)
          next
            case False
            with nb known show ?thesis unfolding q by (intro wf_leaf)
          qed
        qed
      qed
    qed
  qed (use less.prems in \<open>simp_all add: vqs_not_dict\<close>)
qed

subsection \<open>The top level\<close>

lemma top_level_ok:
  "validate_top_level_structure query_dict = None \<longleftrightarrow>
     set (map fst query_dict) \<subseteq> set VALID_TOP_LEVEL_KEYS
     \<and> paging_ok query_dict ''size'' \<and> paging_ok query_dict ''from''"
  by (auto simp: validate_top_level_structure_def Let_def paging_ok_def filter_empty_conv
           split: option.splits)

lemma top_level_not_empty_message: "validate_top_level_structure query_dict \<noteq> Some []"
  by (simp add: validate_top_level_structure_def Let_def)

lemma is_error_top_level:
  "is_error (validate_top_level_structure query_dict) = (validate_top_level_structure query_dict \<noteq> None)"
  using top_level_not_empty_message [of query_dict]
  by (cases "validate_top_level_structure query_dict") auto


section \<open>Documents the validator accepts\<close>

text \<open>
  Claim C1, as the specification states it: every document whose top-level keys are in
  \<open>VALID_TOP_LEVEL_KEYS\<close> and whose clause types are in \<open>VALID_QUERY_TYPES\<close> is valid, whatever
  its paging values and clause bodies. The code rejects such a document: a negative
  \<^verbatim>\<open>size\<close> fails the paging check of \<^verbatim>\<open>_validate_top_level_structure\<close>.
\<close>

theorem valid_keys_and_types_rejected:
  "set (map fst [(''query'', JObject [(''match_all'', JObject [])]), (''size'', JInt (- 1))])
      \<subseteq> set VALID_TOP_LEVEL_KEYS
   \<and> ''match_all'' \<in> set VALID_QUERY_TYPES
   \<and> validate json_loads remdups JNull
        (JObject [(''query'', JObject [(''match_all'', JObject [])]), (''size'', JInt (- 1))])
      = Inr (False, Some '''size' must be a non-negative integer'')"
  by (simp add: validate_object validate_top_level_structure_def VALID_TOP_LEVEL_KEYS_def
        VALID_QUERY_TYPES_def)

text \<open>
  Claim C1, amended: without a schema, \<open>validate\<close> returns valid with no error message
  exactly for the well-formed documents: top-level keys of the registry, paging values that
  are non-negative integers, and under \<^verbatim>\<open>query\<close> a clause of the grammar (a non-empty object
  whose first key is a clause type of the registry, with the body shapes that the boolean
  and the nested composition require, in every sub-clause).
\<close>

theorem well_formed_documents_accepted:
  assumes "\<not> truthy mapping"
  shows "validate loads set_order mapping (JObject query_dict) = Inr (True, None)
           \<longleftrightarrow> well_formed_document query_dict"
proof (cases "map_of query_dict ''query''")
  case None
  with assms show ?thesis
    by (auto simp: validate_object Let_def is_error_top_level top_level_ok well_formed_document_def)
next
  case (Some q)
  have "validate_query_structure q = None \<longleftrightarrow> well_formed_clause q"
    using well_formed_clause_accepted accepted_well_formed_clause by blast
  with Some assms show ?thesis
    by (auto simp: validate_object Let_def is_error_top_level top_level_ok well_formed_document_def)
qed

theorem well_formed_documents_accepted_witness:
  "\<not> truthy JNull
   \<and> well_formed_document
        [(''query'', JObject [(''bool'', JObject [(''must'',
            JArray [JObject [(''match'', JObject [(''title'', JString ''x'')])]])])]),
         (''size'', JInt 10)]
   \<and> validate json_loads remdups JNull
        (JObject [(''query'', JObject [(''bool'', JObject [(''must'',
            JArray [JObject [(''match'', JObject [(''title'', JString ''x'')])]])])]),
         (''size'', JInt 10)]) = Inr (True, None)"
proof -
  have leaf: "well_formed_clause (JObject [(''match'', JObject [(''title'', JString ''x'')])])"
    by (rule wf_leaf) (simp_all add: VALID_QUERY_TYPES_def)
  have "well_formed_clause (JObject [(''bool'', JObject [(''must'',
            JArray [JObject [(''match'', JObject [(''title'', JString ''x'')])]])])])"
    by (rule wf_bool) (use leaf in \<open>auto simp: valid_bool_clauses_def\<close>)
  then have wf: "well_formed_document
        [(''query'', JObject [(''bool'', JObject [(''must'',
            JArray [JObject [(''match'', JObject [(''title'', JString ''x'')])]])])]),
         (''size'', JInt 10)]"
    by (simp add: well_formed_document_def paging_ok_def VALID_TOP_LEVEL_KEYS_def)
  have f: "\<not> truthy JNull" by simp
  from well_formed_documents_accepted [OF f] wf show ?thesis by simp
qed

section \<open>Malformed schemas and field lists\<close>

text \<open>
  Claim C2 says that \<open>validate\<close> never raises. On a schema whose property definition is not
  an object, \<^verbatim>\<open>field_def.get("type")\<close> raises \<^verbatim>\<open>AttributeError\<close>; on a \<^verbatim>\<open>multi_match\<close>
  \<^verbatim>\<open>fields\<close> list with a number, the test \<^verbatim>\<open>"^" in field\<close> raises \<^verbatim>\<open>TypeError\<close>. Neither is
  caught, so the exception leaves \<open>validate\<close>.
\<close>

theorem validate_raises_on_malformed_schema:
  "validate json_loads remdups
      (JObject [(''properties'', JObject [(''title'', JString ''text'')])])
      (JObject [(''query'', JObject [(''match_all'', JObject [])])]) = Inl AttributeError
   \<and> validate json_loads remdups
      (JObject [(''properties'', JObject [(''title'', JObject [(''type'', JString ''text'')])])])
      (JObject [(''query'', JObject [(''multi_match'', JObject [(''fields'', JArray [JInt 1])])])])
       = Inl TypeError"
  by (simp add: validate_object validate_top_level_structure_def VALID_TOP_LEVEL_KEYS_def
        VALID_QUERY_TYPES_def vqs_cons validate_against_mapping_def
        extract_field_names_from_mapping_def extract_field_names_from_query_def
        FIELD_QUERY_TYPES_def)

section \<open>The boolean composition\<close>

text \<open>
  Claim C5. In a boolean composition whose body keys are all known, the result of the
  structural validator is the first error of the four sub-keys in the order must, must_not,
  should, filter, where the error of a sub-key depends only on the value stored under that
  name: the value must be a clause object or an array of clauses, each validated by the
  same procedure. So the result does not depend on the order of the keys in the body, and an
  error under must_not is reported only when must has no error.
\<close>

theorem bool_fixed_priority_order:
  "(set (map fst bq) \<subseteq> set valid_bool_clauses \<longrightarrow>
      validate_query_structure (JObject ((''bool'', JObject bq) # rest)) =
        first_error [sub_key_error bq ''must'', sub_key_error bq ''must_not'',
                     sub_key_error bq ''should'', sub_key_error bq ''filter''])
   \<and> (set (map fst bq) \<subseteq> set valid_bool_clauses \<and> distinct (map fst bq)
        \<and> distinct (map fst bq') \<and> set bq' = set bq \<longrightarrow>
      validate_query_structure (JObject ((''bool'', JObject bq') # rest')) =
        validate_query_structure (JObject ((''bool'', JObject bq) # rest)))
   \<and> (set (map fst bq) \<subseteq> set valid_bool_clauses \<and>
      validate_query_structure (JObject ((''bool'', JObject bq) # rest)) =
        Some (in_clause ''must_not'' e) \<longrightarrow> sub_key_error bq ''must'' = None)"
proof (intro conjI impI)
  assume "set (map fst bq) \<subseteq> set valid_bool_clauses"
  then show "validate_query_structure (JObject ((''bool'', JObject bq) # rest)) =
      first_error [sub_key_error bq ''must'', sub_key_error bq ''must_not'',
                   sub_key_error bq ''should'', sub_key_error bq ''filter'']"
    by (rule vqs_bool_first_error)
next
  assume a: "set (map fst bq) \<subseteq> set valid_bool_clauses \<and> distinct (map fst bq)
      \<and> distinct (map fst bq') \<and> set bq' = set bq"
  then have k: "set (map fst bq) \<subseteq> set valid_bool_clauses"
    and k': "set (map fst bq') \<subseteq> set valid_bool_clauses" by auto
  from a have eq: "sub_key_error bq' c = sub_key_error bq c" for c
    by (intro sub_key_error_perm) auto
  show "validate_query_structure (JObject ((''bool'', JObject bq') # rest')) =
      validate_query_structure (JObject ((''bool'', JObject bq) # rest))"
    by (simp only: vqs_bool_first_error [OF k'] vqs_bool_first_error [OF k] eq)
next
  assume a: "set (map fst bq) \<subseteq> set valid_bool_clauses \<and>
      validate_query_structure (JObject ((''bool'', JObject bq) # rest)) =
        Some (in_clause ''must_not'' e)"
  show "sub_key_error bq ''must'' = None"
  proof (cases "sub_key_error bq ''must''")
    case None
    then show ?thesis .
  next
    case (Some m)
    from a vqs_bool_first_error [of bq rest] Some
    have "m = in_clause ''must_not'' e" by simp
    with sub_key_error_shape [OF Some] show ?thesis
      by (auto simp: in_clause_def)
  qed
qed

theorem bool_fixed_priority_order_witness:
  "set (map fst [(''must_not'', JArray [JObject [(''unknown_clause'', JObject [])]]),
                 (''must'', JArray [JObject [(''match_all'', JObject [])]])])
      \<subseteq> set valid_bool_clauses
   \<and> distinct (map fst [(''must_not'', JArray [JObject [(''unknown_clause'', JObject [])]]),
                 (''must'', JArray [JObject [(''match_all'', JObject [])]])])
   \<and> distinct (map fst [(''must'', JArray [JObject [(''match_all'', JObject [])]]),
                 (''must_not'', JArray [JObject [(''unknown_clause'', JObject [])]])])
   \<and> set [(''must'', JArray [JObject [(''match_all'', JObject [])]]),
           (''must_not'', JArray [JObject [(''unknown_clause'', JObject [])]])]
       = set [(''must_not'', JArray [JObject [(''unknown_clause'', JObject [])]]),
              (''must'', JArray [JObject [(''match_all'', JObject [])]])]
   \<and> validate_query_structure (JObject [(''bool'', JObject
          [(''must_not'', JArray [JObject [(''unknown_clause'', JObject [])]]),
           (''must'', JArray [JObject [(''match_all'', JObject [])]])])])
       = Some (in_clause ''must_not'' ''Unknown query type: unknown_clause'')
   \<and> validate_query_structure (JObject [(''bool'', JObject
          [(''must'', JArray [JObject [(''match_all'', JObject [])]]),
           (''must_not'', JArray [JObject [(''unknown_clause'', JObject [])]])])])
       = Some (in_clause ''must_not'' ''Unknown query type: unknown_clause'')
   \<and> sub_key_error [(''must_not'', JArray [JObject [(''unknown_clause'', JObject [])]]),
                     (''must'', JArray [JObject [(''match_all'', JObject [])]])] ''must'' = None"
proof -
  let ?bq = "[(''must_not'', JArray [JObject [(''unknown_clause'', JObject [])]]),
              (''must'', JArray [JObject [(''match_all'', JObject [])]])]"
  let ?bq' = "[(''must'', JArray [JObject [(''match_all'', JObject [])]]),
               (''must_not'', JArray [JObject [(''unknown_clause'', JObject [])]])]"
  have h: "set (map fst ?bq) \<subseteq> set valid_bool_clauses \<and> distinct (map fst ?bq)
      \<and> distinct (map fst ?bq') \<and> set ?bq' = set ?bq"
    by (auto simp: valid_bool_clauses_def)
  have e: "first_error [sub_key_error ?bq ''must'', sub_key_error ?bq ''must_not'',
                     sub_key_error ?bq ''should'', sub_key_error ?bq ''filter''] =
       Some (in_clause ''must_not'' ''Unknown query type: unknown_clause'')"
    by (simp add: sub_key_error_def vqs_cons VALID_QUERY_TYPES_def)
  from bool_fixed_priority_order [of ?bq "[]" ?bq' "[]" "''Unknown query type: unknown_clause''"] h e
  show ?thesis by simp
qed

section \<open>Unknown top-level keys\<close>

text \<open>
  Claim C6. A document with a top-level key outside \<open>VALID_TOP_LEVEL_KEYS\<close> is invalid,
  whatever the schema, and the one message lists all its unknown keys: it is
  \<^verbatim>\<open>Unknown top-level keys: \<close> followed by the unknown keys joined by \<^verbatim>\<open>, \<close>, so every unknown
  key occurs in it.
\<close>

theorem unknown_top_level_keys_reported:
  assumes "k \<in> set (map fst query_dict)" and "k \<notin> set VALID_TOP_LEVEL_KEYS"
  shows "\<exists>msg. validate loads set_order mapping (JObject query_dict) = Inr (False, Some msg)
           \<and> msg = ''Unknown top-level keys: '' @
                 join '', '' (filter (\<lambda>key. key \<notin> set VALID_TOP_LEVEL_KEYS) (map fst query_dict))
           \<and> (\<forall>u \<in> set (map fst query_dict). u \<notin> set VALID_TOP_LEVEL_KEYS \<longrightarrow> sublist u msg)"
proof -
  let ?unknown = "filter (\<lambda>key. key \<notin> set VALID_TOP_LEVEL_KEYS) (map fst query_dict)"
  let ?msg = "''Unknown top-level keys: '' @ join '', '' ?unknown"
  from assms have ne: "?unknown \<noteq> []" by (auto simp: filter_empty_conv)
  then have top: "validate_top_level_structure query_dict = Some ?msg"
    by (simp add: validate_top_level_structure_def Let_def)
  have v: "validate loads set_order mapping (JObject query_dict) = Inr (False, Some ?msg)"
    by (simp add: validate_object top)
  have "sublist u ?msg" if "u \<in> set (map fst query_dict)" "u \<notin> set VALID_TOP_LEVEL_KEYS" for u
  proof -
    from that have "u \<in> set ?unknown" by simp
    then have "sublist u (join '', '' ?unknown)" by (rule sublist_join)
    then show ?thesis by (rule sublist_prepend)
  qed
  with v show ?thesis by blast
qed

theorem unknown_top_level_keys_reported_witness:
  "''foo'' \<in> set (map fst [(''query'', JObject [(''match_all'', JObject [])]),
                            (''foo'', JInt 1), (''size'', JInt 5), (''bar'', JNull)])
   \<and> ''foo'' \<notin> set VALID_TOP_LEVEL_KEYS
   \<and> validate json_loads remdups JNull
        (JObject [(''query'', JObject [(''match_all'', JObject [])]),
                  (''foo'', JInt 1), (''size'', JInt 5), (''bar'', JNull)])
       = Inr (False, Some ''Unknown top-level keys: foo, bar'')
   \<and> sublist ''foo'' ''Unknown top-level keys: foo, bar''
   \<and> sublist ''bar'' ''Unknown top-level keys: foo, bar''"
proof -
  let ?d = "[(''query'', JObject [(''match_all'', JObject [])]),
             (''foo'', JInt 1), (''size'', JInt 5), (''bar'', JNull)]"
  have a: "''foo'' \<in> set (map fst ?d)" by simp
  have b: "''foo'' \<notin> set VALID_TOP_LEVEL_KEYS" "''bar'' \<notin> set VALID_TOP_LEVEL_KEYS"
    by (simp_all add: VALID_TOP_LEVEL_KEYS_def)
  have f: "filter (\<lambda>key. key \<notin> set VALID_TOP_LEVEL_KEYS) (map fst ?d) = [''foo'', ''bar'']"
    by (simp add: VALID_TOP_LEVEL_KEYS_def)
  from unknown_top_level_keys_reported [OF a b(1), of "json_loads" remdups JNull]
  obtain msg where m: "validate json_loads remdups JNull (JObject ?d) = Inr (False, Some msg)"
      "msg = ''Unknown top-level keys: '' @ join '', '' [''foo'', ''bar'']"
      "\<forall>u \<in> set (map fst ?d). u \<notin> set VALID_TOP_LEVEL_KEYS \<longrightarrow> sublist u msg"
    unfolding f by blast
  from m(2) have msg: "msg = ''Unknown top-level keys: foo, bar''" by simp
  from m(3) b have "sublist ''foo'' msg" "sublist ''bar'' msg" by auto
  with m(1) a b(1) show ?thesis unfolding msg by simp
qed

section \<open>The order of the unknown fields\<close>

text \<open>
  Claim C7, as the specification states it: the message lists the unknown field paths in
  the order in which the extractor met them. The extractor returns a \<^verbatim>\<open>set\<close>; the message
  follows the set's iteration order. With a set that yields \<^verbatim>\<open>zeta\<close> before \<^verbatim>\<open>alpha\<close>, a query
  that refers to \<^verbatim>\<open>alpha\<close> first and \<^verbatim>\<open>zeta\<close> second is answered with \<^verbatim>\<open>zeta, alpha\<close>.
\<close>

theorem unknown_fields_not_in_encounter_order:
  "extract_field_names_from_query
      (JObject [(''query'', JObject [(''bool'', JObject [(''must'',
          JArray [JObject [(''match'', JObject [(''alpha'', JString ''x'')])],
                  JObject [(''match'', JObject [(''zeta'', JString ''y'')])]])])])])
     = Inr [''alpha'', ''zeta'']
   \<and> distinct (rev [''alpha'', ''zeta'']) \<and> set (rev [''alpha'', ''zeta'']) = set [''alpha'', ''zeta'']
   \<and> validate json_loads rev
        (JObject [(''properties'', JObject [(''title'', JObject [(''type'', JString ''text'')])])])
        (JObject [(''query'', JObject [(''bool'', JObject [(''must'',
          JArray [JObject [(''match'', JObject [(''alpha'', JString ''x'')])],
                  JObject [(''match'', JObject [(''zeta'', JString ''y'')])]])])])])
     = Inr (False, Some ''Unknown fields in query: zeta, alpha'')"
  by (simp add: validate_object validate_top_level_structure_def VALID_TOP_LEVEL_KEYS_def
        VALID_QUERY_TYPES_def vqs_cons validate_against_mapping_def valid_bool_clauses_def
        extract_field_names_from_mapping_def extract_field_names_from_query_def
        FIELD_QUERY_TYPES_def Let_def insert_commute)

text \<open>
  Claim C7, amended: the conformance check runs when the schema is non-empty; with no
  schema or an empty one it is skipped, and a document that passes the structural checks
  is valid. With a non-empty schema, a document that passes the structural checks and on
  which both extractors return is valid when every referenced path is in the flattened
  schema; otherwise \<open>validate\<close> fails with the message \<^verbatim>\<open>Unknown fields in query: \<close> followed
  by the unknown paths joined by \<^verbatim>\<open>, \<close>: each referenced path absent from the schema index
  once, in the iteration order of the extractor's set (any order that yields each element
  of the set once).
\<close>

theorem unknown_fields_reported_in_set_order:
  assumes top: "validate_top_level_structure query_dict = None"
    and struct: "(case map_of query_dict ''query'' of None \<Rightarrow> None
                  | Some q \<Rightarrow> validate_query_structure q) = None"
  shows "(\<not> truthy mapping \<longrightarrow>
            validate loads set_order mapping (JObject query_dict) = Inr (True, None))
       \<and> (truthy mapping \<and> extract_field_names_from_mapping mapping = Inr index
            \<and> extract_field_names_from_query (JObject query_dict) = Inr refs
            \<and> distinct (set_order refs) \<and> set (set_order refs) = set refs \<longrightarrow>
          (let unknown = filter (\<lambda>field. field \<notin> set index) (set_order refs) in
             validate loads set_order mapping (JObject query_dict) =
               (if set refs \<subseteq> set index then Inr (True, None)
                else Inr (False, Some (''Unknown fields in query: '' @ join '', '' unknown)))
             \<and> distinct unknown \<and> set unknown = set refs - set index))"
proof (intro conjI impI)
  assume "\<not> truthy mapping"
  with top struct show "validate loads set_order mapping (JObject query_dict) = Inr (True, None)"
    by (simp add: validate_object Let_def)
next
  assume a: "truthy mapping \<and> extract_field_names_from_mapping mapping = Inr index
            \<and> extract_field_names_from_query (JObject query_dict) = Inr refs
            \<and> distinct (set_order refs) \<and> set (set_order refs) = set refs"
  let ?unknown = "filter (\<lambda>field. field \<notin> set index) (set_order refs)"
  from a have s: "set ?unknown = set refs - set index" by auto
  from a have d: "distinct ?unknown" by simp
  have e: "?unknown = [] \<longleftrightarrow> set refs \<subseteq> set index"
  proof -
    have "?unknown = [] \<longleftrightarrow> set ?unknown = {}" by (simp only: set_empty)
    also have "\<dots> \<longleftrightarrow> set refs \<subseteq> set index" unfolding s by auto
    finally show ?thesis .
  qed
  from a have "validate_against_mapping set_order mapping (JObject query_dict) =
          (if ?unknown \<noteq> []
             then Inr (Some (''Unknown fields in query: '' @ join '', '' ?unknown))
           else Inr None)"
    by (simp add: validate_against_mapping_def Let_def)
  with top struct a e
  have "validate loads set_order mapping (JObject query_dict) =
               (if set refs \<subseteq> set index then Inr (True, None)
                else Inr (False, Some (''Unknown fields in query: '' @ join '', '' ?unknown)))"
    by (simp add: validate_object Let_def)
  with s d show "let unknown = ?unknown in
             validate loads set_order mapping (JObject query_dict) =
               (if set refs \<subseteq> set index then Inr (True, None)
                else Inr (False, Some (''Unknown fields in query: '' @ join '', '' unknown)))
             \<and> distinct unknown \<and> set unknown = set refs - set index"
    by (simp only: Let_def)
qed

theorem unknown_fields_reported_in_set_order_witness:
  "validate json_loads remdups
        (JObject [(''properties'', JObject [(''title'', JObject [(''type'', JString ''text'')])])])
        (JObject [(''query'', JObject [(''bool'', JObject [(''must'',
          JArray [JObject [(''match'', JObject [(''body'', JString ''x'')])],
                  JObject [(''term'', JObject [(''author'', JString ''y'')])],
                  JObject [(''match'', JObject [(''body'', JString ''z'')])],
                  JObject [(''match'', JObject [(''title'', JString ''t'')])]])])])])
     = Inr (False, Some ''Unknown fields in query: author, body'')
   \<and> validate json_loads remdups (JObject [])
        (JObject [(''query'', JObject [(''bool'', JObject [(''must'',
          JArray [JObject [(''match'', JObject [(''body'', JString ''x'')])],
                  JObject [(''term'', JObject [(''author'', JString ''y'')])],
                  JObject [(''match'', JObject [(''body'', JString ''z'')])],
                  JObject [(''match'', JObject [(''title'', JString ''t'')])]])])])])
     = Inr (True, None)"
proof -
  let ?m = "JObject [(''properties'', JObject [(''title'', JObject [(''type'', JString ''text'')])])]"
  let ?d = "[(''query'', JObject [(''bool'', JObject [(''must'',
          JArray [JObject [(''match'', JObject [(''body'', JString ''x'')])],
                  JObject [(''term'', JObject [(''author'', JString ''y'')])],
                  JObject [(''match'', JObject [(''body'', JString ''z'')])],
                  JObject [(''match'', JObject [(''title'', JString ''t'')])]])])])]"
  let ?refs = "[''body'', ''author'', ''body'', ''title'']"
  have top: "validate_top_level_structure ?d = None"
    by (simp add: validate_top_level_structure_def VALID_TOP_LEVEL_KEYS_def)
  have struct: "(case map_of ?d ''query'' of None \<Rightarrow> None
                  | Some q \<Rightarrow> validate_query_structure q) = None"
    by (simp add: vqs_cons VALID_QUERY_TYPES_def valid_bool_clauses_def)
  have schema: "truthy ?m" by simp
  have empty: "\<not> truthy (JObject [])" by simp
  have index: "extract_field_names_from_mapping ?m = Inr [''title'']"
    by (simp add: extract_field_names_from_mapping_def)
  have refs: "extract_field_names_from_query (JObject ?d) = Inr ?refs"
    by (simp add: extract_field_names_from_query_def FIELD_QUERY_TYPES_def)
  have order: "distinct (remdups ?refs)" "set (remdups ?refs) = set ?refs"
    by (rule distinct_remdups, rule set_remdups)
  have unknown: "filter (\<lambda>field. field \<notin> set [''title'']) (remdups ?refs) = [''author'', ''body'']"
    by simp
  have absent: "\<not> set ?refs \<subseteq> set [''title'']" by simp
  note th = unknown_fields_reported_in_set_order
         [where set_order = remdups and loads = json_loads and index = "[''title'']"
            and refs = ?refs, OF top struct]
  from th [of ?m] schema index refs order
  have "let unknown = filter (\<lambda>field. field \<notin> set [''title'']) (remdups ?refs) in
             validate json_loads remdups ?m (JObject ?d) =
               (if set ?refs \<subseteq> set [''title''] then Inr (True, None)
                else Inr (False, Some (''Unknown fields in query: '' @ join '', '' unknown)))
             \<and> distinct unknown \<and> set unknown = set ?refs - set [''title'']"
    by blast
  then have "validate json_loads remdups ?m (JObject ?d) =
               (if set ?refs \<subseteq> set [''title''] then Inr (True, None)
                else Inr (False, Some (''Unknown fields in query: '' @ join '', '' [''author'', ''body''])))"
    unfolding Let_def unknown by blast
  then have r: "validate json_loads remdups ?m (JObject ?d) =
       Inr (False, Some ''Unknown fields in query: author, body'')"
    using absent by simp
  from th [of "JObject []"] empty
  have "validate json_loads remdups (JObject []) (JObject ?d) = Inr (True, None)" by blast
  with r show ?thesis by blast
qed

section \<open>Clause types with an empty body\<close>

text \<open>
  Claim C8. A clause whose first key is \<^verbatim>\<open>match_all\<close> or \<^verbatim>\<open>match_none\<close> and whose body is the
  empty object or \<^verbatim>\<open>null\<close> is accepted by the structural validator: it returns no error.
  \<^verbatim>\<open>match_all\<close> is accepted by the special case, \<^verbatim>\<open>match_none\<close> as a known clause type that
  has no body check.
\<close>

theorem match_all_match_none_accepted:
  assumes "k = ''match_all'' \<or> k = ''match_none''" and "body = JObject [] \<or> body = JNull"
  shows "validate_query_structure (JObject ((k, body) # rest)) = None"
  using assms by (auto simp: vqs_cons VALID_QUERY_TYPES_def)

theorem match_all_match_none_accepted_witness:
  "validate_query_structure (JObject [(''match_none'', JNull)]) = None
   \<and> validate_query_structure (JObject [(''match_all'', JObject [])]) = None"
  using match_all_match_none_accepted [of "''match_none''" JNull "[]"]
    match_all_match_none_accepted [of "''match_all''" "JObject []" "[]"]
  by simp

section \<open>Clause dispatch\<close>

text \<open>
  Claim C10, as the specification states it: the keys of a clause after the first are
  never examined, so a document whose \<^verbatim>\<open>query\<close> is \<^verbatim>\<open>{"match_all": {}, ...}\<close> is valid
  whatever the other keys hold. The structural validator does read the first key only, but
  with a non-empty schema the field extractor walks every key of the clause: the clause
  \<^verbatim>\<open>{"match_all": {}, "match": {"ghost": 1}}\<close> passes the structural check and the document
  is rejected for the unknown field \<^verbatim>\<open>ghost\<close>, and with the extra key
  \<^verbatim>\<open>"multi_match": {"fields": [1]}\<close> the extractor raises \<^verbatim>\<open>TypeError\<close>; with the one-key
  clause \<^verbatim>\<open>{"match_all": {}}\<close> the same schema accepts the document.
\<close>

theorem extra_clause_keys_read_with_schema:
  "validate_query_structure
      (JObject [(''match_all'', JObject []), (''match'', JObject [(''ghost'', JInt 1)])]) = None
   \<and> validate json_loads remdups
        (JObject [(''properties'', JObject [(''title'', JObject [(''type'', JString ''text'')])])])
        (JObject [(''query'', JObject [(''match_all'', JObject [])])])
      = Inr (True, None)
   \<and> validate json_loads remdups
        (JObject [(''properties'', JObject [(''title'', JObject [(''type'', JString ''text'')])])])
        (JObject [(''query'', JObject [(''match_all'', JObject []),
                                       (''match'', JObject [(''ghost'', JInt 1)])])])
      = Inr (False, Some ''Unknown fields in query: ghost'')
   \<and> validate json_loads remdups
        (JObject [(''properties'', JObject [(''title'', JObject [(''type'', JString ''text'')])])])
        (JObject [(''query'', JObject [(''match_all'', JObject []),
                                       (''multi_match'', JObject [(''fields'', JArray [JInt 1])])])])
      = Inl TypeError"
  by (simp add: validate_object validate_top_level_structure_def VALID_TOP_LEVEL_KEYS_def
        VALID_QUERY_TYPES_def vqs_cons validate_against_mapping_def
        extract_field_names_from_mapping_def extract_field_names_from_query_def
        FIELD_QUERY_TYPES_def)

text \<open>
  Claim C10, amended: the structural validator reads only the first key of a clause object
  and that key's value: its result for a clause is its result for the clause cut down to
  its first key. With no schema, or an empty one, the keys of the \<^verbatim>\<open>query\<close> clause after the
  first never change the result of \<open>validate\<close> on a document, and a document that holds only
  a \<^verbatim>\<open>query\<close> whose first key and body pass the structural check is valid whatever the
  other keys of the clause hold, as \<^verbatim>\<open>{"match_all": {}, "not_a_clause": 1}\<close> shows.
\<close>

theorem clause_dispatch_first_key_only:
  "validate_query_structure (JObject ((k, b) # rest)) = validate_query_structure (JObject [(k, b)])
   \<and> (\<not> truthy mapping \<longrightarrow>
        validate loads set_order mapping (JObject (pre @ (''query'', JObject ((k, b) # rest)) # post))
        = validate loads set_order mapping (JObject (pre @ (''query'', JObject [(k, b)]) # post)))
   \<and> (\<not> truthy mapping \<and> validate_query_structure (JObject [(k, b)]) = None \<longrightarrow>
        validate loads set_order mapping (JObject [(''query'', JObject ((k, b) # rest))])
        = Inr (True, None))"
proof (intro conjI impI)
  show c: "validate_query_structure (JObject ((k, b) # rest)) = validate_query_structure (JObject [(k, b)])"
    by (simp only: vqs_cons)
  {
    fix X Y :: json
    have "validate_top_level_structure (pre @ (''query'', X) # post)
        = validate_top_level_structure (pre @ (''query'', Y) # post)"
      by (simp add: validate_top_level_structure_def map_add_def split: option.splits)
  } note top = this
  {
    assume m: "\<not> truthy mapping"
    have q: "(case map_of (pre @ (''query'', JObject ((k, b) # rest)) # post) ''query'' of None \<Rightarrow> None
                  | Some q \<Rightarrow> validate_query_structure q)
        = (case map_of (pre @ (''query'', JObject [(k, b)]) # post) ''query'' of None \<Rightarrow> None
                  | Some q \<Rightarrow> validate_query_structure q)"
      using c by (simp add: map_add_def split: option.splits)
    show "validate loads set_order mapping (JObject (pre @ (''query'', JObject ((k, b) # rest)) # post))
        = validate loads set_order mapping (JObject (pre @ (''query'', JObject [(k, b)]) # post))"
      unfolding validate_object q top [of "JObject ((k, b) # rest)" "JObject [(k, b)]"]
      using m by simp
  }
  {
    assume a: "\<not> truthy mapping \<and> validate_query_structure (JObject [(k, b)]) = None"
    have "validate_top_level_structure [(''query'', JObject ((k, b) # rest))] = None"
      by (simp add: validate_top_level_structure_def VALID_TOP_LEVEL_KEYS_def)
    with a c show "validate loads set_order mapping (JObject [(''query'', JObject ((k, b) # rest))])
        = Inr (True, None)"
      by (simp add: validate_object)
  }
qed

theorem clause_dispatch_first_key_only_witness:
  "validate_query_structure (JObject [(''match_all'', JObject []), (''not_a_clause'', JInt 1)]) = None
   \<and> validate json_loads remdups JNull
        (JObject [(''query'', JObject [(''match_all'', JObject []), (''not_a_clause'', JInt 1)])])
       = Inr (True, None)
   \<and> validate json_loads remdups (JObject [])
        (JObject [(''size'', JInt 5),
                  (''query'', JObject [(''term'', JObject [(''a'', JInt 1)]), (''bool'', JString ''x'')]),
                  (''from'', JInt 0)])
       = Inr (True, None)"
proof -
  note th = clause_dispatch_first_key_only
          [of "''match_all''" "JObject []" "[(''not_a_clause'', JInt 1)]" JNull json_loads remdups "[]" "[]"]
  note th' = clause_dispatch_first_key_only
          [of "''term''" "JObject [(''a'', JInt 1)]" "[(''bool'', JString ''x'')]" "JObject []"
              json_loads remdups "[(''size'', JInt 5)]" "[(''from'', JInt 0)]"]
  have n: "\<not> truthy JNull" "\<not> truthy (JObject [])" by simp_all
  have one: "validate_query_structure (JObject [(''match_all'', JObject [])]) = None"
    by (simp add: vqs_cons)
  have base: "validate json_loads remdups (JObject [])
        (JObject ([(''size'', JInt 5)] @ (''query'', JObject [(''term'', JObject [(''a'', JInt 1)])])
                  # [(''from'', JInt 0)])) = Inr (True, None)"
    by (simp add: validate_object validate_top_level_structure_def VALID_TOP_LEVEL_KEYS_def
          VALID_QUERY_TYPES_def vqs_cons)
  from th one have a: "validate_query_structure
      (JObject [(''match_all'', JObject []), (''not_a_clause'', JInt 1)]) = None" by simp
  from th n one have b: "validate json_loads remdups JNull
        (JObject [(''query'', JObject [(''match_all'', JObject []), (''not_a_clause'', JInt 1)])])
       = Inr (True, None)" by blast
  from th' n have "validate json_loads remdups (JObject [])
        (JObject ([(''size'', JInt 5)] @
                  (''query'', JObject [(''term'', JObject [(''a'', JInt 1)]), (''bool'', JString ''x'')])
                  # [(''from'', JInt 0)]))
       = validate json_loads remdups (JObject [])
        (JObject ([(''size'', JInt 5)] @ (''query'', JObject [(''term'', JObject [(''a'', JInt 1)])])
                  # [(''from'', JInt 0)]))" by blast
  with base have c: "validate json_loads remdups (JObject [])
        (JObject [(''size'', JInt 5),
                  (''query'', JObject [(''term'', JObject [(''a'', JInt 1)]), (''bool'', JString ''x'')]),
                  (''from'', JInt 0)])
       = Inr (True, None)" by simp
  from a b c show ?thesis by blast
qed

section \<open>Properties of the two patterns\<close>

lemma star_greedy_any_last_brace:
  "star_greedy any_char s (\<lambda>s2. lit ''}'' s2 (\<lambda>rest. Some (f rest))) =
     (if CHR ''}'' \<in> set s then Some (f (rev (takeWhile (\<lambda>c. c \<noteq> CHR ''}'') (rev s)))) else None)"
proof (induction s)
  case Nil
  then show ?case by (simp add: lit_def)
next
  case (Cons c cs)
  show ?case
  proof (cases "CHR ''}'' \<in> set cs")
    case True
    then have "takeWhile (\<lambda>c. c \<noteq> CHR ''}'') (rev cs @ [c]) = takeWhile (\<lambda>c. c \<noteq> CHR ''}'') (rev cs)"
      by (intro takeWhile_append1 [where x = "CHR ''}''"]) auto
    with True Cons show ?thesis by (simp add: any_char_def)
  next
    case False
    then have "takeWhile (\<lambda>c. c \<noteq> CHR ''}'') (rev cs @ [c]) =
                 rev cs @ takeWhile (\<lambda>c. c \<noteq> CHR ''}'') [c]"
      by (intro takeWhile_append2) auto
    with False Cons show ?thesis by (auto simp: any_char_def lit_def)
  qed
qed

lemma take_up_to_last:
  "take (length s - length (rev (takeWhile P (rev s)))) s = rev (dropWhile P (rev s))"
proof -
  have "rev s = takeWhile P (rev s) @ dropWhile P (rev s)" by simp
  then have "s = rev (dropWhile P (rev s)) @ rev (takeWhile P (rev s))"
    by (metis rev_append rev_rev_ident)
  then have "take (length s - length (rev (takeWhile P (rev s)))) s =
      take (length (rev (dropWhile P (rev s))))
        (rev (dropWhile P (rev s)) @ rev (takeWhile P (rev s)))"
    by (metis add_diff_cancel_right' length_append)
  then show ?thesis by simp
qed

lemma brace_here_eq:
  "brace_here s =
     (case s of
        [] \<Rightarrow> None
      | c # cs \<Rightarrow> if c = CHR ''{'' \<and> CHR ''}'' \<in> set cs then Some (c # up_to_last_brace cs) else None)"
proof (cases s)
  case Nil
  then show ?thesis by (simp add: brace_here_def group_def lit_def)
next
  case (Cons c cs)
  show ?thesis
  proof (cases "c = CHR ''{''")
    case True
    have "brace_here s =
        star_greedy any_char cs (\<lambda>s2. lit ''}'' s2
          (\<lambda>rest. Some (take (length s - length rest) s)))"
      unfolding Cons True by (simp add: brace_here_def group_def lit_def)
    also have "\<dots> = (if CHR ''}'' \<in> set cs
        then Some (take (length s - length (rev (takeWhile (\<lambda>c. c \<noteq> CHR ''}'') (rev cs)))) s)
        else None)"
      by (rule star_greedy_any_last_brace)
    also have "take (length s - length (rev (takeWhile (\<lambda>c. c \<noteq> CHR ''}'') (rev cs)))) s =
        c # up_to_last_brace cs"
    proof -
      have le: "length (rev (takeWhile (\<lambda>c. c \<noteq> CHR ''}'') (rev cs))) \<le> length cs"
        using length_takeWhile_le [of _ "rev cs"] by simp
      then have "length s - length (rev (takeWhile (\<lambda>c. c \<noteq> CHR ''}'') (rev cs))) =
          Suc (length cs - length (rev (takeWhile (\<lambda>c. c \<noteq> CHR ''}'') (rev cs))))"
        unfolding Cons by simp
      then show ?thesis unfolding Cons up_to_last_brace_def
        by (simp add: take_up_to_last del: length_rev)
    qed
    finally show ?thesis using True Cons by simp
  next
    case False
    with Cons show ?thesis by (simp add: brace_here_def group_def lit_def)
  qed
qed

lemma brace_here_Nil: "brace_here [] = None"
  by (simp add: brace_here_eq)

lemma brace_here_Cons:
  "brace_here (c # cs) =
     (if c = CHR ''{'' \<and> CHR ''}'' \<in> set cs then Some (c # up_to_last_brace cs) else None)"
  by (simp add: brace_here_eq)

lemma re_search_brace_none: "CHR ''}'' \<notin> set s \<Longrightarrow> re_search brace_here s = None"
  by (induction s) (auto simp: brace_here_Nil brace_here_Cons)

lemma re_search_brace_eq: "re_search brace_here s = first_to_last_brace s"
proof (induction s)
  case Nil
  then show ?case by (simp add: brace_here_Nil first_to_last_brace_def)
next
  case (Cons c cs)
  show ?case
  proof (cases "c = CHR ''{''")
    case True
    then show ?thesis
      by (simp add: brace_here_Cons first_to_last_brace_def re_search_brace_none)
  next
    case False
    with Cons show ?thesis by (simp add: brace_here_Cons first_to_last_brace_def)
  qed
qed

lemma lit_Some: "lit l s k = Some x \<Longrightarrow> \<exists>r. s = l @ r \<and> k r = Some x"
  by (auto simp: lit_def prefix_def split: if_splits)

lemma lit_append: "lit l (l @ r) k = k r"
  by (simp add: lit_def)

lemma opt_greedy_Some: "opt_greedy r s k = Some x \<Longrightarrow> r s k = Some x \<or> k s = Some x"
  by (auto simp: opt_greedy_def split: option.splits)

lemma opt_greedy_complete: "k s \<noteq> None \<Longrightarrow> opt_greedy r s k \<noteq> None"
  by (auto simp: opt_greedy_def split: option.splits)

lemma star_greedy_Some:
  "star_greedy cls s k = Some x \<Longrightarrow> \<exists>p r. s = p @ r \<and> (\<forall>c \<in> set p. cls c) \<and> k r = Some x"
proof (induction s)
  case Nil
  then show ?case by simp
next
  case (Cons c cs)
  show ?case
  proof (cases "cls c \<and> star_greedy cls cs k = Some x")
    case True
    with Cons.IH obtain p r where "cs = p @ r" "\<forall>c \<in> set p. cls c" "k r = Some x" by blast
    with True have "c # cs = (c # p) @ r \<and> (\<forall>c \<in> set (c # p). cls c) \<and> k r = Some x" by simp
    then show ?thesis by blast
  next
    case False
    with Cons.prems have "k (c # cs) = Some x" by (auto split: if_splits option.splits)
    then have "c # cs = [] @ (c # cs) \<and> (\<forall>c \<in> set []. cls c) \<and> k (c # cs) = Some x" by simp
    then show ?thesis by blast
  qed
qed

lemma star_greedy_complete: "k s \<noteq> None \<Longrightarrow> star_greedy cls s k \<noteq> None"
  by (cases s) (auto split: option.splits)

lemma star_lazy_Some:
  "star_lazy cls s k = Some x \<Longrightarrow> \<exists>p r. s = p @ r \<and> (\<forall>c \<in> set p. cls c) \<and> k r = Some x"
proof (induction s)
  case Nil
  then show ?case by simp
next
  case (Cons c cs)
  show ?case
  proof (cases "k (c # cs) = Some x")
    case True
    then have "c # cs = [] @ (c # cs) \<and> (\<forall>c \<in> set []. cls c) \<and> k (c # cs) = Some x" by simp
    then show ?thesis by blast
  next
    case False
    with Cons.prems have c: "cls c" and "star_lazy cls cs k = Some x"
      by (auto split: if_splits option.splits)
    with Cons.IH obtain p r where "cs = p @ r" "\<forall>c \<in> set p. cls c" "k r = Some x" by blast
    with c have "c # cs = (c # p) @ r \<and> (\<forall>c \<in> set (c # p). cls c) \<and> k r = Some x" by simp
    then show ?thesis by blast
  qed
qed

lemma star_lazy_complete: "k r \<noteq> None \<Longrightarrow> star_lazy any_char (p @ r) k \<noteq> None"
proof (induction p)
  case Nil
  then show ?case by (cases r) (auto split: option.splits)
next
  case (Cons a p)
  then show ?case by (auto simp: any_char_def split: option.splits)
qed

lemma re_search_Some: "re_search m s = Some x \<Longrightarrow> \<exists>a t. s = a @ t \<and> m t = Some x"
proof (induction s)
  case Nil
  then show ?case by simp
next
  case (Cons c cs)
  show ?case
  proof (cases "m (c # cs) = Some x")
    case True
    then have "c # cs = [] @ (c # cs) \<and> m (c # cs) = Some x" by simp
    then show ?thesis by blast
  next
    case False
    with Cons.prems have "re_search m cs = Some x" by (auto split: option.splits)
    with Cons.IH obtain a t where "cs = a @ t" "m t = Some x" by blast
    then have "c # cs = (c # a) @ t \<and> m t = Some x" by simp
    then show ?thesis by blast
  qed
qed

lemma re_search_complete: "m t \<noteq> None \<Longrightarrow> re_search m (a @ t) \<noteq> None"
proof (induction a)
  case Nil
  then show ?case by (cases t) (auto split: option.splits)
next
  case (Cons c a)
  then show ?case by (auto split: option.splits)
qed

lemma fence_here_sound:
  assumes "fence_here t = Some g"
  shows "\<exists>tag w1 w2 c. t = ''```'' @ tag @ w1 @ g @ w2 @ ''```'' @ c
           \<and> (tag = [] \<or> tag = ''json'')
           \<and> (\<forall>x \<in> set w1. is_space x) \<and> (\<forall>x \<in> set w2. is_space x)"
proof -
  let ?K3 = "\<lambda>s3. group (star_lazy any_char) s3 (\<lambda>g s4.
     star_greedy is_space s4 (\<lambda>s5. lit ''```'' s5 (\<lambda>s6. Some g)))"
  let ?K2 = "\<lambda>s2. star_greedy is_space s2 ?K3"
  from assms obtain s1 where t: "t = ''```'' @ s1"
    and 1: "opt_greedy (lit ''json'') s1 ?K2 = Some g"
    unfolding fence_here_def by (blast dest: lit_Some)
  from opt_greedy_Some [OF 1] obtain tag s2 where s1: "s1 = tag @ s2"
    and tag: "tag = [] \<or> tag = ''json''" and 2: "?K2 s2 = Some g"
  proof
    assume "lit ''json'' s1 ?K2 = Some g"
    then obtain r where "s1 = ''json'' @ r" "?K2 r = Some g" by (blast dest: lit_Some)
    then show ?thesis using that [of "''json''" r] by simp
  next
    assume "?K2 s1 = Some g"
    then show ?thesis using that [of "[]" s1] by simp
  qed
  from star_greedy_Some [OF 2] obtain w1 s3 where s2: "s2 = w1 @ s3"
    and w1: "\<forall>x \<in> set w1. is_space x" and 3: "?K3 s3 = Some g" by blast
  from 3 have "star_lazy any_char s3 (\<lambda>rest.
      star_greedy is_space rest (\<lambda>s5. lit ''```'' s5
        (\<lambda>s6. Some (take (length s3 - length rest) s3)))) = Some g"
    by (simp add: group_def)
  from star_lazy_Some [OF this] obtain p s4 where s3: "s3 = p @ s4"
    and 4: "star_greedy is_space s4 (\<lambda>s5. lit ''```'' s5
        (\<lambda>s6. Some (take (length s3 - length s4) s3))) = Some g" by blast
  from star_greedy_Some [OF 4] obtain w2 s5 where s4: "s4 = w2 @ s5"
    and w2: "\<forall>x \<in> set w2. is_space x"
    and 5: "lit ''```'' s5 (\<lambda>s6. Some (take (length s3 - length s4) s3)) = Some g" by blast
  from lit_Some [OF 5] obtain c where s5: "s5 = ''```'' @ c"
    and g: "take (length s3 - length s4) s3 = g" by auto
  from g s3 have "g = p" by simp
  with t s1 s2 s3 s4 s5 have "t = ''```'' @ tag @ w1 @ g @ w2 @ ''```'' @ c" by simp
  with tag w1 w2 show ?thesis by blast
qed

lemma fence_here_complete: "fence_here (''```'' @ b @ ''```'' @ c) \<noteq> None"
proof -
  let ?s1 = "b @ ''```'' @ c"
  let ?k = "\<lambda>rest. star_greedy is_space rest (\<lambda>s5. lit ''```'' s5
        (\<lambda>s6. Some (take (length ?s1 - length rest) ?s1)))"
  have "lit ''```'' (''```'' @ c) (\<lambda>s6. Some (take (length ?s1 - length (''```'' @ c)) ?s1)) \<noteq> None"
    by (simp only: lit_append) simp
  then have "?k (''```'' @ c) \<noteq> None" by (rule star_greedy_complete)
  then have "star_lazy any_char ?s1 ?k \<noteq> None" by (rule star_lazy_complete)
  then have "group (star_lazy any_char) ?s1 (\<lambda>g s4.
     star_greedy is_space s4 (\<lambda>s5. lit ''```'' s5 (\<lambda>s6. Some g))) \<noteq> None"
    by (simp add: group_def)
  then have "star_greedy is_space ?s1 (\<lambda>s3. group (star_lazy any_char) s3 (\<lambda>g s4.
     star_greedy is_space s4 (\<lambda>s5. lit ''```'' s5 (\<lambda>s6. Some g)))) \<noteq> None"
    by (rule star_greedy_complete)
  then have "opt_greedy (lit ''json'') ?s1 (\<lambda>s2. star_greedy is_space s2 (\<lambda>s3.
     group (star_lazy any_char) s3 (\<lambda>g s4.
     star_greedy is_space s4 (\<lambda>s5. lit ''```'' s5 (\<lambda>s6. Some g))))) \<noteq> None"
    by (rule opt_greedy_complete)
  then show ?thesis unfolding fence_here_def lit_append .
qed

lemma has_fence_iff: "has_fence s \<longleftrightarrow> re_search fence_here s \<noteq> None"
proof
  assume "has_fence s"
  then obtain a b c where "s = a @ ''```'' @ b @ ''```'' @ c" unfolding has_fence_def by blast
  then show "re_search fence_here s \<noteq> None"
    using re_search_complete [where m = fence_here and a = a
        and t = "''```'' @ b @ ''```'' @ c", OF fence_here_complete] by simp
next
  assume "re_search fence_here s \<noteq> None"
  then obtain g where "re_search fence_here s = Some g" by blast
  from re_search_Some [OF this] obtain a t where s: "s = a @ t" and "fence_here t = Some g"
    by blast
  from fence_here_sound [OF this(2)] obtain tag w1 w2 c
    where "t = ''```'' @ (tag @ w1 @ g @ w2) @ ''```'' @ c" by auto
  with s show "has_fence s" unfolding has_fence_def by blast
qed

text \<open>The first pattern finds the interior of the first fenced block.\<close>

lemma backtick_not_space: "\<not> is_space (CHR ''`'')"
  by (simp add: is_space_def)

lemma marker_head: "prefix marker (c # cs) \<Longrightarrow> c = CHR ''`''"
  by (simp add: marker_def)

lemma marker_Nil: "\<not> prefix marker []"
  by (simp add: marker_def)

lemma marker_drop: "prefix marker s \<Longrightarrow> s = marker @ drop 3 s"
  by (auto simp: prefix_def marker_def)

lemma marker_append: "prefix marker (marker @ r)"
  by simp

lemma drop_marker: "drop 3 (marker @ r) = r"
  by (simp add: marker_def)

lemma split_at_marker_other:
  "x \<noteq> CHR ''`'' \<Longrightarrow> split_at_marker (x # t) = map_option (\<lambda>(a, b). (x # a, b)) (split_at_marker t)"
  using marker_head [of x t] by auto

lemma split_at_marker_here: "split_at_marker (marker @ r) = Some ([], r)"
proof -
  obtain c cs where m: "marker @ r = c # cs" by (cases "marker @ r") (simp_all add: marker_def)
  have "split_at_marker (c # cs) = Some ([], drop 3 (c # cs))"
    using marker_append [of r] by (simp only: m split_at_marker.simps if_True)
  then show ?thesis using drop_marker [of r] by (simp only: m)
qed

lemma split_at_marker_Some: "split_at_marker s = Some (a, r) \<Longrightarrow> s = a @ marker @ r"
proof (induction s arbitrary: a r)
  case Nil
  then show ?case by simp
next
  case (Cons c cs)
  show ?case
  proof (cases "prefix marker (c # cs)")
    case True
    from Cons.prems True have "Some ([], drop 3 (c # cs)) = Some (a, r)"
      by (simp only: split_at_marker.simps if_True)
    then have a: "a = []" and r: "r = drop 3 (c # cs)" by (simp_all del: drop_Suc_Cons)
    show ?thesis unfolding a r append_Nil by (rule marker_drop [OF True])
  next
    case False
    from Cons.prems False have "map_option (\<lambda>(a, b). (c # a, b)) (split_at_marker cs) = Some (a, r)"
      by (simp only: split_at_marker.simps if_False)
    then obtain a' where "split_at_marker cs = Some (a', r)" "a = c # a'"
      by (auto split: prod.splits)
    with Cons.IH show ?thesis by simp
  qed
qed

lemma split_at_marker_append: "split_at_marker (a @ marker @ r) \<noteq> None"
proof (induction a)
  case Nil
  show ?case by (simp add: split_at_marker_here)
next
  case (Cons x a)
  show ?case
  proof (cases "prefix marker (x # a @ marker @ r)")
    case True
    then show ?thesis by (simp only: append_Cons split_at_marker.simps if_True) simp
  next
    case False
    with Cons show ?thesis by (simp only: append_Cons split_at_marker.simps if_False) auto
  qed
qed

lemma split_at_marker_None_drop:
  assumes "split_at_marker s = None"
  shows "split_at_marker (drop n s) = None"
proof (rule ccontr)
  assume "split_at_marker (drop n s) \<noteq> None"
  then obtain a r where "split_at_marker (drop n s) = Some (a, r)" by auto
  from split_at_marker_Some [OF this] have d: "drop n s = a @ marker @ r" .
  have "s = take n s @ drop n s" by simp
  then have "s = (take n s @ a) @ marker @ r" unfolding d by simp
  with split_at_marker_append [of "take n s @ a" r] assms show False by simp
qed

lemma split_at_marker_spaces:
  "\<forall>x \<in> set w. is_space x \<Longrightarrow> split_at_marker (w @ marker @ c) = Some (w, c)"
proof (induction w)
  case Nil
  show ?case by (simp add: split_at_marker_here)
next
  case (Cons x w)
  from Cons.prems have "x \<noteq> CHR ''`''" using backtick_not_space by auto
  from split_at_marker_other [OF this] Cons show ?case by simp
qed

lemma split_at_marker_dropWhile:
  "split_at_marker (dropWhile is_space t) = None \<Longrightarrow> split_at_marker t = None"
proof (induction t)
  case Nil
  then show ?case by simp
next
  case (Cons c cs)
  show ?case
  proof (cases "is_space c")
    case True
    then have "c \<noteq> CHR ''`''" using backtick_not_space by auto
    from split_at_marker_other [OF this] Cons True show ?thesis by simp
  next
    case False
    with Cons.prems show ?thesis by simp
  qed
qed

lemma closes_marker:
  "prefix marker (dropWhile is_space t) \<longleftrightarrow> (\<exists>w c. t = w @ marker @ c \<and> (\<forall>x \<in> set w. is_space x))"
proof
  assume p: "prefix marker (dropWhile is_space t)"
  have "t = takeWhile is_space t @ dropWhile is_space t" by simp
  with marker_drop [OF p]
  have "t = takeWhile is_space t @ marker @ drop 3 (dropWhile is_space t)" by simp
  moreover have "\<forall>x \<in> set (takeWhile is_space t). is_space x" by (auto dest: set_takeWhileD)
  ultimately show "\<exists>w c. t = w @ marker @ c \<and> (\<forall>x \<in> set w. is_space x)" by blast
next
  assume "\<exists>w c. t = w @ marker @ c \<and> (\<forall>x \<in> set w. is_space x)"
  then obtain w c where t: "t = w @ marker @ c" and w: "\<forall>x \<in> set w. is_space x" by blast
  have "\<not> is_space (hd (marker @ c))" by (simp add: marker_def backtick_not_space)
  moreover have "marker @ c \<noteq> []" by (simp add: marker_def)
  ultimately have "dropWhile is_space (marker @ c) = marker @ c"
    by (cases "marker @ c") simp_all
  with w have "dropWhile is_space t = marker @ c" unfolding t
    by (simp add: dropWhile_append)
  then show "prefix marker (dropWhile is_space t)" by simp
qed

lemma star_greedy_closes:
  "star_greedy is_space t (\<lambda>s5. lit marker s5 (\<lambda>s6. Some g))
     = (if prefix marker (dropWhile is_space t) then Some g else None)"
proof (induction t)
  case Nil
  show ?case by (simp add: lit_def)
next
  case (Cons c cs)
  show ?case
  proof (cases "is_space c")
    case True
    then have "c \<noteq> CHR ''`''" using backtick_not_space by auto
    with marker_head [of c cs] have "lit marker (c # cs) (\<lambda>s6. Some g) = None"
      by (auto simp: lit_def)
    with True Cons show ?thesis by simp
  next
    case False
    then show ?thesis by (simp add: lit_def)
  qed
qed

lemma rstrip_spaces: "\<forall>x \<in> set w. is_space x \<Longrightarrow> rstrip w = []"
  by (simp add: rstrip_def)

lemma rstrip_Cons: "\<not> (\<forall>x \<in> set (c # g). is_space x) \<Longrightarrow> rstrip (c # g) = c # rstrip g"
  by (auto simp: rstrip_def dropWhile_append)

lemma rstrip_prefix: "take (length (rstrip g)) g = rstrip g"
proof -
  define t where "t = takeWhile is_space (rev g)"
  define d where "d = dropWhile is_space (rev g)"
  have "rev g = t @ d" by (simp add: t_def d_def)
  then have "rev (rev g) = rev (t @ d)" by (rule arg_cong)
  then have "g = rev d @ rev t" by simp
  moreover have "rstrip g = rev d" by (simp add: rstrip_def d_def)
  ultimately have "g = rstrip g @ rev t" by simp
  then show ?thesis by (metis append_eq_conv_conj)
qed

lemma marker_ne: "marker \<noteq> []"
  by (simp add: marker_def)

lemma length_marker: "length marker = 3"
  by (simp add: marker_def)

lemma star_lazy_marker:
  "star_lazy any_char t (\<lambda>rest. if prefix marker (dropWhile is_space rest) then Some (h rest) else None)
   = (case split_at_marker t of
        None \<Rightarrow> None
      | Some (g, c) \<Rightarrow> Some (h (drop (length (rstrip g)) t)))"
proof (induction t)
  case Nil
  show ?case by (simp add: marker_ne)
next
  case (Cons x xs)
  show ?case
  proof (cases "prefix marker (dropWhile is_space (x # xs))")
    case True
    then obtain w c where t: "x # xs = w @ marker @ c" and w: "\<forall>x \<in> set w. is_space x"
      unfolding closes_marker by blast
    from split_at_marker_spaces [OF w, of c] t
    have "split_at_marker (x # xs) = Some (w, c)" by simp
    with True rstrip_spaces [OF w] show ?thesis by (simp del: split_at_marker.simps)
  next
    case False
    have np: "\<not> prefix marker (x # xs)"
    proof
      assume p: "prefix marker (x # xs)"
      from marker_head [OF p] have "\<not> is_space x" using backtick_not_space by simp
      with p False show False by simp
    qed
    have step: "star_lazy any_char (x # xs)
        (\<lambda>rest. if prefix marker (dropWhile is_space rest) then Some (h rest) else None)
      = star_lazy any_char xs
        (\<lambda>rest. if prefix marker (dropWhile is_space rest) then Some (h rest) else None)"
      using False by (simp add: any_char_def)
    show ?thesis
    proof (cases "split_at_marker xs")
      case None
      with np have "split_at_marker (x # xs) = None" by simp
      with None Cons step show ?thesis by simp
    next
      case (Some p)
      obtain g c where p: "p = (g, c)" by (cases p)
      from split_at_marker_Some Some p have xs: "xs = g @ marker @ c" by blast
      have "\<not> (\<forall>y \<in> set (x # g). is_space y)"
      proof
        assume "\<forall>y \<in> set (x # g). is_space y"
        with xs have "\<exists>w c. x # xs = w @ marker @ c \<and> (\<forall>x \<in> set w. is_space x)"
          by (intro exI [of _ "x # g"] exI [of _ c]) simp
        with False show False unfolding closes_marker by blast
      qed
      from rstrip_Cons [OF this] have r: "rstrip (x # g) = x # rstrip g" .
      from np Some p have "split_at_marker (x # xs) = Some (x # g, c)" by simp
      with Some p Cons step r show ?thesis by simp
    qed
  qed
qed

lemma group_lazy_marker:
  "group (star_lazy any_char) s3 (\<lambda>g s4. star_greedy is_space s4 (\<lambda>s5. lit marker s5 (\<lambda>s6. Some g)))
     = (case split_at_marker s3 of None \<Rightarrow> None | Some (g, c) \<Rightarrow> Some (rstrip g))"
proof -
  have "group (star_lazy any_char) s3 (\<lambda>g s4. star_greedy is_space s4 (\<lambda>s5. lit marker s5 (\<lambda>s6. Some g)))
    = star_lazy any_char s3 (\<lambda>rest. if prefix marker (dropWhile is_space rest)
         then Some (take (length s3 - length rest) s3) else None)"
    by (simp add: group_def star_greedy_closes)
  also have "\<dots> = (case split_at_marker s3 of None \<Rightarrow> None
      | Some (g, c) \<Rightarrow> Some (take (length s3 - length (drop (length (rstrip g)) s3)) s3))"
    by (rule star_lazy_marker)
  also have "\<dots> = (case split_at_marker s3 of None \<Rightarrow> None | Some (g, c) \<Rightarrow> Some (rstrip g))"
  proof (cases "split_at_marker s3")
    case None
    then show ?thesis by simp
  next
    case (Some p)
    obtain g c where p: "p = (g, c)" by (cases p)
    from split_at_marker_Some Some p have s3: "s3 = g @ marker @ c" by blast
    have "length (take (length (rstrip g)) g) \<le> length g" by simp
    then have le: "length (rstrip g) \<le> length g" by (simp only: rstrip_prefix)
    have "take (length s3 - length (drop (length (rstrip g)) s3)) s3 = take (length (rstrip g)) s3"
      using le s3 by simp
    also have "\<dots> = take (length (rstrip g)) g" using le s3 by simp
    also have "\<dots> = rstrip g" by (rule rstrip_prefix)
    finally show ?thesis using Some p by simp
  qed
  finally show ?thesis .
qed

lemma star_greedy_marker:
  "star_greedy is_space s2 (\<lambda>s3. case split_at_marker s3 of None \<Rightarrow> None | Some (g, c) \<Rightarrow> Some (rstrip g))
     = (case split_at_marker (dropWhile is_space s2) of None \<Rightarrow> None | Some (g, c) \<Rightarrow> Some (rstrip g))"
proof (induction s2)
  case Nil
  show ?case by simp
next
  case (Cons c cs)
  show ?case
  proof (cases "is_space c")
    case True
    show ?thesis
    proof (cases "split_at_marker (dropWhile is_space cs)")
      case None
      from split_at_marker_dropWhile [of "c # cs"] True None
      have "split_at_marker (c # cs) = None" by simp
      with True None Cons show ?thesis by (simp del: split_at_marker.simps)
    next
      case (Some p)
      with True Cons show ?thesis by (simp del: split_at_marker.simps split: prod.splits)
    qed
  next
    case False
    then show ?thesis by (simp del: split_at_marker.simps)
  qed
qed

lemma split_at_marker_json: "split_at_marker t = None \<Longrightarrow> split_at_marker (''json'' @ t) = None"
  by (simp add: split_at_marker_other del: split_at_marker.simps)

lemma after_marker_None_iff: "after_marker r = None \<longleftrightarrow> split_at_marker r = None"
proof
  assume n: "split_at_marker r = None"
  let ?b = "if prefix ''json'' r then drop 4 r else r"
  have "split_at_marker ?b = None" using split_at_marker_None_drop [OF n, of 4] n by simp
  from split_at_marker_None_drop [OF this, of "length (takeWhile is_space ?b)"]
  have "split_at_marker (dropWhile is_space ?b) = None" by (simp only: dropWhile_eq_drop)
  then show "after_marker r = None" by (simp add: after_marker_def)
next
  assume "after_marker r = None"
  then have "split_at_marker (dropWhile is_space (if prefix ''json'' r then drop 4 r else r)) = None"
    unfolding after_marker_def by (cases "split_at_marker (dropWhile is_space (if prefix ''json'' r then drop 4 r else r))") auto
  then have n: "split_at_marker (if prefix ''json'' r then drop 4 r else r) = None"
    by (rule split_at_marker_dropWhile)
  show "split_at_marker r = None"
  proof (cases "prefix ''json'' r")
    case False
    with n show ?thesis by simp
  next
    case True
    then obtain t where r: "r = ''json'' @ t" by (auto simp: prefix_def)
    from n True have "split_at_marker (drop 4 r) = None" by simp
    then have "split_at_marker t = None" unfolding r by simp
    from split_at_marker_json [OF this] show ?thesis unfolding r .
  qed
qed

lemma fence_here_eq:
  "fence_here s = (if prefix marker s then after_marker (drop 3 s) else None)"
proof (cases "prefix marker s")
  case False
  then show ?thesis by (simp add: fence_here_def lit_def marker_def)
next
  case True
  let ?K = "\<lambda>s2. case split_at_marker (dropWhile is_space s2) of None \<Rightarrow> None | Some (g, c) \<Rightarrow> Some (rstrip g)"
  let ?r = "drop 3 s"
  have "fence_here s =
     lit marker s (\<lambda>s1.
     opt_greedy (lit ''json'') s1 (\<lambda>s2.
     star_greedy is_space s2 (\<lambda>s3.
     group (star_lazy any_char) s3 (\<lambda>g s4.
     star_greedy is_space s4 (\<lambda>s5.
     lit marker s5 (\<lambda>s6. Some g))))))"
    by (simp only: fence_here_def marker_def)
  also have "\<dots> = lit marker s (\<lambda>s1. opt_greedy (lit ''json'') s1 ?K)"
    by (simp only: group_lazy_marker star_greedy_marker)
  also have "\<dots> = opt_greedy (lit ''json'') ?r ?K"
    using True by (simp add: lit_def length_marker)
  finally have f: "fence_here s = opt_greedy (lit ''json'') ?r ?K" .
  have K: "\<And>t. ?K t = None \<longleftrightarrow> split_at_marker (dropWhile is_space t) = None"
    by (simp split: option.splits prod.splits)
  show ?thesis
  proof (cases "prefix ''json'' ?r")
    case False
    then have "opt_greedy (lit ''json'') ?r ?K = ?K ?r" by (simp add: opt_greedy_def lit_def)
    with False True f show ?thesis by (simp add: after_marker_def)
  next
    case j: True
    have a: "after_marker ?r = ?K (drop 4 ?r)" using j by (simp add: after_marker_def)
    show ?thesis
    proof (cases "?K (drop 4 ?r)")
      case (Some x)
      with j have "opt_greedy (lit ''json'') ?r ?K = Some x" by (simp add: opt_greedy_def lit_def)
      with Some a True f show ?thesis by simp
    next
      case None
      with a have "after_marker ?r = None" by simp
      then have "split_at_marker ?r = None" by (simp only: after_marker_None_iff)
      from split_at_marker_None_drop [OF this, of "length (takeWhile is_space ?r)"]
      have "split_at_marker (dropWhile is_space ?r) = None" by (simp only: dropWhile_eq_drop)
      then have "?K ?r = None" by simp
      with None j have "opt_greedy (lit ''json'') ?r ?K = None" by (simp add: opt_greedy_def lit_def)
      with None a True f show ?thesis by simp
    qed
  qed
qed

lemma re_search_fence_eq: "re_search fence_here s = fence_interior s"
proof (induction s)
  case Nil
  show ?case by (simp add: fence_here_eq fence_interior_def marker_ne)
next
  case (Cons c cs)
  show ?case
  proof (cases "prefix marker (c # cs)")
    case False
    then have "fence_here (c # cs) = None" by (simp only: fence_here_eq if_False)
    then have "re_search fence_here (c # cs) = re_search fence_here cs" by simp
    moreover from False have "fence_interior (c # cs) = fence_interior cs"
      by (simp add: fence_interior_def split: option.splits)
    ultimately show ?thesis using Cons by simp
  next
    case True
    then have h: "fence_here (c # cs) = after_marker (drop 3 (c # cs))"
      by (simp only: fence_here_eq if_True)
    from True have i: "fence_interior (c # cs) = after_marker (drop 3 (c # cs))"
      by (simp only: fence_interior_def split_at_marker.simps if_True option.case prod.case)
    show ?thesis
    proof (cases "after_marker (drop 3 (c # cs))")
      case (Some x)
      with h i show ?thesis by (simp del: drop_Suc_Cons)
    next
      case None
      then have n: "split_at_marker (drop 3 (c # cs)) = None" by (simp only: after_marker_None_iff)
      have "fence_interior cs = None"
      proof (cases "split_at_marker cs")
        case None
        then show ?thesis by (simp add: fence_interior_def)
      next
        case (Some p)
        obtain a r where p: "p = (a, r)" by (cases p)
        from split_at_marker_Some Some p have cs: "cs = a @ marker @ r" by blast
        have "drop (length a + 1) (drop 3 (c # cs)) = drop (length a + 3) cs"
          by (simp add: numeral_3_eq_3)
        also have "\<dots> = drop 3 (marker @ r)" unfolding cs by simp
        also have "\<dots> = r" by (rule drop_marker)
        finally have "drop (length a + 1) (drop 3 (c # cs)) = r" .
        with split_at_marker_None_drop [OF n, of "length a + 1"] have "split_at_marker r = None"
          by simp
        then have "after_marker r = None" by (simp only: after_marker_None_iff)
        with Some p show ?thesis by (simp add: fence_interior_def)
      qed
      with Cons have "re_search fence_here cs = None" by simp
      with h None have "re_search fence_here (c # cs) = None" by (simp del: drop_Suc_Cons)
      with i None show ?thesis by simp
    qed
  qed
qed

lemma has_fence_marker: "has_fence s \<longleftrightarrow> (\<exists>a b c. s = a @ marker @ b @ marker @ c)"
  by (simp only: has_fence_def marker_def)

lemma has_fence_interior: "has_fence s \<longleftrightarrow> fence_interior s \<noteq> None"
  by (simp only: has_fence_iff re_search_fence_eq)

section \<open>The order of the recovery strategies\<close>

text \<open>
  Claim C3, as the specification states it: the three strategies are tried in order and the
  first one that parses wins, so that the brace scan is still tried when the fenced block
  gives no value. On the text \<^verbatim>\<open>```x``` {"a":1}\<close> the whole text does not parse, the fenced
  block is found, its interior \<^verbatim>\<open>x\<close> does not parse, and the brace span \<^verbatim>\<open>{"a":1}\<close> would
  parse; the specification's reading gives the object, the code raises \<^verbatim>\<open>ValueError\<close>.
\<close>

theorem fenced_failure_stops_recovery:
  "isl (json_loads ''```x``` {\"a\":1}'')
   \<and> re_search fence_here ''```x``` {\"a\":1}'' = Some ''x''
   \<and> isl (json_loads ''x'')
   \<and> re_search brace_here ''```x``` {\"a\":1}'' = Some ''{\"a\":1}''
   \<and> spec_recover json_loads ''```x``` {\"a\":1}'' = Some (JObject [(''a'', JInt 1)])
   \<and> isl (parse_query_string json_loads ''```x``` {\"a\":1}'')"
  by code_simp

text \<open>
  Claim C3, amended: \<^verbatim>\<open>parse_query_string\<close> returns the value of the whole text when that
  parses. Otherwise, when the text holds a fenced block (a triple-backtick marker with
  another one after it), the result is the parse of the interior of the first block, a
  value or a failure, and the brace scan is not tried. The interior lies between the first
  marker of the text and the next marker after it, without a \<^verbatim>\<open>json\<close> tag after the first
  marker and without the whitespace at its two ends; this is what the first pattern finds.
  Only when the text holds no fenced block is the span from the first \<^verbatim>\<open>{\<close> to the last
  \<^verbatim>\<open>}\<close> parsed, and without such a span the function fails. On \<^verbatim>\<open>Sure! {"a":1} done.\<close> the
  result is the object \<^verbatim>\<open>{"a": 1}\<close>.
\<close>

theorem recover_strategy_order:
  "re_search fence_here s = fence_interior s
   \<and> (has_fence s \<longleftrightarrow> fence_interior s \<noteq> None)
   \<and> (loads s = Inr v \<longrightarrow> parse_query_string loads s = Inr v)
   \<and> (isl (loads s) \<longrightarrow>
        parse_query_string loads s =
          (case fence_interior s of
             Some g \<Rightarrow> (case loads g of Inr v \<Rightarrow> Inr v | Inl e \<Rightarrow> Inl (invalid_query_string e))
           | None \<Rightarrow>
               (case first_to_last_brace s of
                  Some g \<Rightarrow> (case loads g of Inr v \<Rightarrow> Inr v | Inl e \<Rightarrow> Inl (invalid_query_string e))
                | None \<Rightarrow> Inl (invalid_query_string
                               ''Could not extract valid JSON from the query string''))))"
proof (intro conjI impI)
  show "re_search fence_here s = fence_interior s" by (rule re_search_fence_eq)
next
  show "has_fence s \<longleftrightarrow> fence_interior s \<noteq> None" by (rule has_fence_interior)
next
  assume "loads s = Inr v"
  then show "parse_query_string loads s = Inr v" by (simp add: parse_query_string_def)
next
  assume "isl (loads s)"
  then show "parse_query_string loads s =
          (case fence_interior s of
             Some g \<Rightarrow> (case loads g of Inr v \<Rightarrow> Inr v | Inl e \<Rightarrow> Inl (invalid_query_string e))
           | None \<Rightarrow>
               (case first_to_last_brace s of
                  Some g \<Rightarrow> (case loads g of Inr v \<Rightarrow> Inr v | Inl e \<Rightarrow> Inl (invalid_query_string e))
                | None \<Rightarrow> Inl (invalid_query_string
                               ''Could not extract valid JSON from the query string'')))"
    unfolding parse_query_string_def re_search_fence_eq re_search_brace_eq
    by (cases "loads s") simp_all
qed

theorem recover_strategy_order_witness:
  "json_loads ''{\"a\":1}'' = Inr (JObject [(''a'', JInt 1)])
   \<and> parse_query_string json_loads ''{\"a\":1}'' = Inr (JObject [(''a'', JInt 1)])
   \<and> isl (json_loads ''Sure! {\"a\":1} done.'')
   \<and> \<not> has_fence ''Sure! {\"a\":1} done.''
   \<and> first_to_last_brace ''Sure! {\"a\":1} done.'' = Some ''{\"a\":1}''
   \<and> parse_query_string json_loads ''Sure! {\"a\":1} done.'' = Inr (JObject [(''a'', JInt 1)])
   \<and> isl (json_loads ''one ```json {\"a\":1} ``` two ``` {\"b\":2} ```'')
   \<and> has_fence ''one ```json {\"a\":1} ``` two ``` {\"b\":2} ```''
   \<and> re_search fence_here ''one ```json {\"a\":1} ``` two ``` {\"b\":2} ```'' = Some ''{\"a\":1}''
   \<and> parse_query_string json_loads ''one ```json {\"a\":1} ``` two ``` {\"b\":2} ```''
       = Inr (JObject [(''a'', JInt 1)])"
proof -
  let ?d = "''{\"a\":1}''"
  let ?s = "''Sure! {\"a\":1} done.''"
  let ?t = "''one ```json {\"a\":1} ``` two ``` {\"b\":2} ```''"
  note th0 = recover_strategy_order [of ?d json_loads "JObject [(''a'', JInt 1)]"]
  note th = recover_strategy_order [of ?s json_loads JNull]
  note th' = recover_strategy_order [of ?t json_loads JNull]
  have v: "json_loads ?d = Inr (JObject [(''a'', JInt 1)])" by code_simp
  with th0 have r0: "parse_query_string json_loads ?d = Inr (JObject [(''a'', JInt 1)])" by blast
  have l: "isl (json_loads ?s)" by code_simp
  have i: "fence_interior ?s = None" by code_simp
  with th have nf: "\<not> has_fence ?s" by blast
  have b: "first_to_last_brace ?s = Some ?d" by code_simp
  from th l have "parse_query_string json_loads ?s =
          (case fence_interior ?s of
             Some g \<Rightarrow> (case json_loads g of Inr v \<Rightarrow> Inr v | Inl e \<Rightarrow> Inl (invalid_query_string e))
           | None \<Rightarrow>
               (case first_to_last_brace ?s of
                  Some g \<Rightarrow> (case json_loads g of Inr v \<Rightarrow> Inr v | Inl e \<Rightarrow> Inl (invalid_query_string e))
                | None \<Rightarrow> Inl (invalid_query_string
                               ''Could not extract valid JSON from the query string'')))"
    by blast
  then have r: "parse_query_string json_loads ?s = Inr (JObject [(''a'', JInt 1)])"
    by (simp only: i b v option.case sum.case)
  have l': "isl (json_loads ?t)" by code_simp
  have i': "fence_interior ?t = Some ?d" by code_simp
  with th' have hf: "has_fence ?t" by simp
  from th' i' have f': "re_search fence_here ?t = Some ?d" by simp
  from th' l' have "parse_query_string json_loads ?t =
          (case fence_interior ?t of
             Some g \<Rightarrow> (case json_loads g of Inr v \<Rightarrow> Inr v | Inl e \<Rightarrow> Inl (invalid_query_string e))
           | None \<Rightarrow>
               (case first_to_last_brace ?t of
                  Some g \<Rightarrow> (case json_loads g of Inr v \<Rightarrow> Inr v | Inl e \<Rightarrow> Inl (invalid_query_string e))
                | None \<Rightarrow> Inl (invalid_query_string
                               ''Could not extract valid JSON from the query string'')))"
    by blast
  then have r': "parse_query_string json_loads ?t = Inr (JObject [(''a'', JInt 1)])"
    by (simp only: i' v option.case sum.case)
  from v r0 l nf b r l' hf f' r' show ?thesis by blast
qed

section \<open>The brace span\<close>

text \<open>
  Claim C4, as the specification states it: the brace scan parses the span from the first
  \<^verbatim>\<open>{\<close> to the \<^verbatim>\<open>}\<close> that structurally matches it, so that of several objects only the first
  is tried. The pattern \<^verbatim>\<open>({[\s\S]*})\<close> is greedy: on \<^verbatim>\<open>x {"a":1} y {"b":2} z\<close> the span with
  the matching brace is \<^verbatim>\<open>{"a":1}\<close>, which parses, but the code takes
  \<^verbatim>\<open>{"a":1} y {"b":2}\<close>, which does not, and fails.
\<close>

theorem brace_span_not_balanced:
  "isl (json_loads ''x {\"a\":1} y {\"b\":2} z'')
   \<and> re_search fence_here ''x {\"a\":1} y {\"b\":2} z'' = None
   \<and> balanced_span ''x {\"a\":1} y {\"b\":2} z'' = Some ''{\"a\":1}''
   \<and> json_loads ''{\"a\":1}'' = Inr (JObject [(''a'', JInt 1)])
   \<and> re_search brace_here ''x {\"a\":1} y {\"b\":2} z'' = Some ''{\"a\":1} y {\"b\":2}''
   \<and> isl (parse_query_string json_loads ''x {\"a\":1} y {\"b\":2} z'')"
  by code_simp

text \<open>
  Claim C4, amended: the brace scan takes the span from the first \<^verbatim>\<open>{\<close> of the text to the
  last \<^verbatim>\<open>}\<close> of the text, when a \<^verbatim>\<open>}\<close> follows the first \<^verbatim>\<open>{\<close>, and finds nothing otherwise.
  When the whole text does not parse and the first pattern finds no fenced block, the
  result of \<^verbatim>\<open>parse_query_string\<close> is the parse of exactly that span; a text with several
  objects gives one span that holds them all.
\<close>

theorem brace_scan_first_to_last:
  "re_search brace_here s = first_to_last_brace s
   \<and> (isl (loads s) \<and> re_search fence_here s = None \<longrightarrow>
        parse_query_string loads s =
          (case first_to_last_brace s of
             Some g \<Rightarrow> (case loads g of Inr v \<Rightarrow> Inr v | Inl e \<Rightarrow> Inl (invalid_query_string e))
           | None \<Rightarrow> Inl (invalid_query_string
                          ''Could not extract valid JSON from the query string'')))"
proof (intro conjI impI)
  show "re_search brace_here s = first_to_last_brace s" by (rule re_search_brace_eq)
next
  assume "isl (loads s) \<and> re_search fence_here s = None"
  then show "parse_query_string loads s =
          (case first_to_last_brace s of
             Some g \<Rightarrow> (case loads g of Inr v \<Rightarrow> Inr v | Inl e \<Rightarrow> Inl (invalid_query_string e))
           | None \<Rightarrow> Inl (invalid_query_string
                          ''Could not extract valid JSON from the query string''))"
    by (cases "loads s") (simp_all add: parse_query_string_def re_search_brace_eq)
qed

theorem brace_scan_first_to_last_witness:
  "isl (json_loads ''ok: {\"q\": {\"x\": [1, 2]}} .'')
   \<and> re_search fence_here ''ok: {\"q\": {\"x\": [1, 2]}} .'' = None
   \<and> first_to_last_brace ''ok: {\"q\": {\"x\": [1, 2]}} .'' = Some ''{\"q\": {\"x\": [1, 2]}}''
   \<and> parse_query_string json_loads ''ok: {\"q\": {\"x\": [1, 2]}} .''
       = Inr (JObject [(''q'', JObject [(''x'', JArray [JInt 1, JInt 2])])])"
proof -
  let ?s = "''ok: {\"q\": {\"x\": [1, 2]}} .''"
  have l: "isl (json_loads ?s)" by code_simp
  have f: "re_search fence_here ?s = None" by code_simp
  have b: "first_to_last_brace ?s = Some ''{\"q\": {\"x\": [1, 2]}}''" by code_simp
  have v: "json_loads ''{\"q\": {\"x\": [1, 2]}}''
      = Inr (JObject [(''q'', JObject [(''x'', JArray [JInt 1, JInt 2])])])" by code_simp
  from brace_scan_first_to_last [of ?s json_loads] l f
  have "parse_query_string json_loads ?s =
          (case first_to_last_brace ?s of
             Some g \<Rightarrow> (case json_loads g of Inr v \<Rightarrow> Inr v | Inl e \<Rightarrow> Inl (invalid_query_string e))
           | None \<Rightarrow> Inl (invalid_query_string
                          ''Could not extract valid JSON from the query string''))"
    by blast
  then have "parse_query_string json_loads ?s
       = Inr (JObject [(''q'', JObject [(''x'', JArray [JInt 1, JInt 2])])])"
    by (simp only: b v option.case sum.case)
  with l f b show ?thesis by blast
qed

section \<open>The decoder reads what the encoder writes\<close>

subsection \<open>Strings and numbers\<close>


















subsection \<open>Heads of encoded values\<close>








lemma join_Cons_Cons: "join sep (x # y # ys) = x @ sep @ join sep (y # ys)"
  by simp



subsection \<open>Arrays\<close>


subsection \<open>Objects\<close>









subsection \<open>Enough fuel\<close>





subsection \<open>The scanner on the encoder's text\<close>


declare scan_once.simps [simp del]




section \<open>Round trip through serialization\<close>



end
